theory Spec2Isabelle
  imports Main "HOL-Library.Word" "HOL-Library.Sublist" "HOL-Library.Multiset"
begin

section \<open>Go strings and decimal numerals\<close>

text \<open>
  Go strings are byte sequences, here \<open>string\<close>. The helpers of Go's \<^verbatim>\<open>strings\<close>
  package that the code below calls are written out: \<^verbatim>\<open>Join\<close>, \<^verbatim>\<open>HasPrefix\<close>,
  \<^verbatim>\<open>Contains\<close>, \<^verbatim>\<open>Replace\<close> with a count of 1, and \<^verbatim>\<open>ToUpper\<close> on the ASCII
  letters (other bytes are left as they are).
\<close>

fun Join :: "string list \<Rightarrow> string \<Rightarrow> string" where
  "Join [] sep = []"
| "Join [x] sep = x"
| "Join (x # y # ys) sep = x @ sep @ Join (y # ys) sep"

definition HasPrefix :: "string \<Rightarrow> string \<Rightarrow> bool" where
  "HasPrefix s pre = (take (length pre) s = pre)"

fun ContainsStr :: "string \<Rightarrow> string \<Rightarrow> bool" where
  "ContainsStr [] substr = (substr = [])"
| "ContainsStr (c # s) substr = (HasPrefix (c # s) substr \<or> ContainsStr s substr)"

fun ReplaceFirst :: "string \<Rightarrow> string \<Rightarrow> string \<Rightarrow> string" where
  "ReplaceFirst [] old new = (if old = [] then new else [])"
| "ReplaceFirst (c # s) old new =
     (if HasPrefix (c # s) old then new @ drop (length old) (c # s)
      else c # ReplaceFirst s old new)"

definition ToUpperChar :: "char \<Rightarrow> char" where
  "ToUpperChar c =
     (case map_of (zip ''abcdefghijklmnopqrstuvwxyz'' ''ABCDEFGHIJKLMNOPQRSTUVWXYZ'') c of
        Some u \<Rightarrow> u
      | None \<Rightarrow> c)"

definition ToUpper :: "string \<Rightarrow> string" where
  "ToUpper s = map ToUpperChar s"

text \<open>
  \<^verbatim>\<open>strings.Split(str, ",")\<close> for a separator of one byte: the pieces between the
  separators, one more than there are separators.
\<close>

fun Split :: "string \<Rightarrow> char \<Rightarrow> string list" where
  "Split [] sep = [[]]"
| "Split (c # s) sep =
     (if c = sep then [] # Split s sep
      else (case Split s sep of
              [] \<Rightarrow> [[c]]
            | piece # pieces \<Rightarrow> (c # piece) # pieces))"

text \<open>
  \<^verbatim>\<open>strconv.FormatInt(n, 10)\<close>: the decimal digits of \<open>n\<close>, most significant first,
  after a minus sign when \<open>n\<close> is negative.
\<close>

definition digitChar :: "nat \<Rightarrow> char" where
  "digitChar d = ''0123456789'' ! d"

fun natToDec :: "nat \<Rightarrow> string" where
  "natToDec n = (if n < 10 then [digitChar n] else natToDec (n div 10) @ [digitChar (n mod 10)])"

declare natToDec.simps [simp del]

definition FormatInt :: "int \<Rightarrow> string" where
  "FormatInt i = (if i < 0 then CHR ''-'' # natToDec (nat (- i)) else natToDec (nat i))"


section \<open>Multi-client command dispatch (server/api_middleware.go)\<close>

text \<open>
  Times are integer counts of nanoseconds; a Go pointer that may be \<^verbatim>\<open>nil\<close> is an
  \<open>option\<close>. A client carries the fields the dispatcher reads. The records follow
  \<^verbatim>\<open>models.Job\<close> and \<^verbatim>\<open>models.MultiJob\<close> as the dispatcher fills them; the fields of
  a multi-job carry the prefix \<open>m\<close>, since a record field has one name per theory.
  \<open>NoStatus\<close> is the empty status of a job value that has not been assigned one.
\<close>

record Client =
  ID :: string
  Name :: string
  DisconnectedAt :: "int option"

record ClientGroup =
  GroupID :: string

datatype JobStatus = NoStatus | JobStatusRunning | JobStatusSuccessful | JobStatusFailed | JobStatusUnknown

record Job =
  JID :: string
  Status :: JobStatus
  FinishedAt :: "int option"
  StartedAt :: int
  ClientID :: string
  ClientName :: string
  Command :: string
  Cwd :: string
  IsSudo :: bool
  IsScript :: bool
  Interpreter :: string
  CreatedBy :: string
  TimeoutSec :: int
  MultiJobID :: "string option"
  HasShebang :: bool
  PID :: "int option"
  Error :: string
  Result :: "(string \<times> string) option"

record MultiJob =
  mJID :: string
  mStartedAt :: int
  mCreatedBy :: string
  mClientIDs :: "string list"
  mGroupIDs :: "string list"
  mCommand :: string
  mInterpreter :: string
  mCwd :: string
  mIsSudo :: bool
  mIsScript :: bool
  mHasShebang :: bool
  mTimeoutSec :: int
  Concurrent :: bool
  AbortOnErr :: bool

subsection \<open>Target resolution: \<^verbatim>\<open>getOrderedClients\<close>\<close>

text \<open>
  The client-group provider and the client service are inputs: \<open>getGroup\<close> is
  \<^verbatim>\<open>clientGroupProvider.Get\<close>, \<open>getByID\<close> is \<^verbatim>\<open>clientService.GetByID\<close> (each an
  error text, or the value found, or \<^verbatim>\<open>nil\<close>) and \<open>getActiveByGroups\<close> is
  \<^verbatim>\<open>clientService.GetActiveByGroups\<close>. An \<^verbatim>\<open>APIError\<close> is its message, by kind and
  the identifier it quotes, and its HTTP status.
\<close>

datatype api_message =
    FailedToGetGroup string
  | UnknownGroup string
  | FailedToFindClient string
  | ClientNotFound string
  | ClientNotActive string

datatype APIError = APIError (Message: api_message) (HTTPStatus: nat)

definition StatusBadRequest :: nat where "StatusBadRequest = 400"
definition StatusNotFound :: nat where "StatusNotFound = 404"
definition StatusInternalServerError :: nat where "StatusInternalServerError = 500"

text \<open>The first loop: fetch every group, stop at the first failure.\<close>

fun fetchGroups ::
  "(string \<Rightarrow> string + ClientGroup option) \<Rightarrow> string list \<Rightarrow> ClientGroup list \<Rightarrow> APIError + ClientGroup list" where
  "fetchGroups getGroup [] groups = Inr groups"
| "fetchGroups getGroup (groupID # groupIDs) groups =
     (case getGroup groupID of
        Inl err \<Rightarrow> Inl (APIError (FailedToGetGroup groupID) StatusInternalServerError)
      | Inr None \<Rightarrow> Inl (APIError (UnknownGroup groupID) StatusBadRequest)
      | Inr (Some grp) \<Rightarrow> fetchGroups getGroup groupIDs (groups @ [grp]))"

text \<open>
  The second loop: the explicit client ids, in order. It carries \<^verbatim>\<open>orderedClients\<close> and
  \<^verbatim>\<open>usedClientIDs\<close> (a \<^verbatim>\<open>map[string]bool\<close>, read as false where unset) and returns them
  with the error, if any; on an error the clients gathered so far are returned with it.
\<close>

fun addClientIDs ::
  "(string \<Rightarrow> string + Client option) \<Rightarrow> string list \<Rightarrow> Client list \<Rightarrow> (string \<Rightarrow> bool)
     \<Rightarrow> Client list \<times> (string \<Rightarrow> bool) \<times> APIError option" where
  "addClientIDs getByID [] orderedClients usedClientIDs = (orderedClients, usedClientIDs, None)"
| "addClientIDs getByID (cid # cids) orderedClients usedClientIDs =
     (case getByID cid of
        Inl err \<Rightarrow>
          (orderedClients, usedClientIDs, Some (APIError (FailedToFindClient cid) StatusInternalServerError))
      | Inr None \<Rightarrow>
          (orderedClients, usedClientIDs, Some (APIError (ClientNotFound cid) StatusNotFound))
      | Inr (Some client) \<Rightarrow>
          (if DisconnectedAt client \<noteq> None then
             (orderedClients, usedClientIDs, Some (APIError (ClientNotActive cid) StatusBadRequest))
           else addClientIDs getByID cids (orderedClients @ [client]) (usedClientIDs(cid := True))))"

text \<open>The third loop: append each group client whose id is not yet used, and mark it used.\<close>

fun appendGroupClients :: "Client list \<Rightarrow> Client list \<Rightarrow> (string \<Rightarrow> bool) \<Rightarrow> Client list" where
  "appendGroupClients [] orderedClients usedClientIDs = orderedClients"
| "appendGroupClients (groupClient # groupClients) orderedClients usedClientIDs =
     (if \<not> usedClientIDs (ID groupClient) then
        appendGroupClients groupClients (orderedClients @ [groupClient])
          (usedClientIDs(ID groupClient := True))
      else appendGroupClients groupClients orderedClients usedClientIDs)"

text \<open>The result is the triple the Go function returns: clients, group clients found, error.\<close>

definition getOrderedClients ::
  "(string \<Rightarrow> string + ClientGroup option) \<Rightarrow> (string \<Rightarrow> string + Client option)
     \<Rightarrow> (ClientGroup list \<Rightarrow> Client list) \<Rightarrow> string list \<Rightarrow> string list
     \<Rightarrow> Client list \<times> nat \<times> APIError option" where
  "getOrderedClients getGroup getByID getActiveByGroups clientIDs groupIDs =
     (case fetchGroups getGroup groupIDs [] of
        Inl err \<Rightarrow> ([], 0, Some err)
      | Inr groups \<Rightarrow>
          (let groupClients = getActiveByGroups groups;
               groupClientsFoundCount = length groupClients
           in case addClientIDs getByID clientIDs [] (\<lambda>_. False) of
                (orderedClients, usedClientIDs, Some err) \<Rightarrow> (orderedClients, 0, Some err)
              | (orderedClients, usedClientIDs, None) \<Rightarrow>
                  (appendGroupClients groupClients orderedClients usedClientIDs,
                   groupClientsFoundCount, None)))"


subsection \<open>Execution: \<^verbatim>\<open>createAndRunJob\<close> and \<^verbatim>\<open>executeMultiClientJob\<close>\<close>

text \<open>
  What the dispatcher does to the outside is a list of events, in order: a \<^verbatim>\<open>run_cmd\<close>
  request sent to a client with the job it carries (\<open>SendRunCmd\<close>), and a call of
  \<^verbatim>\<open>jobProvider.CreateJob\<close> with the job handed over and whether the provider stored it
  (\<open>CreateJobCall\<close>). What the outside answers for one child is a \<open>child_env\<close>: the
  result of \<^verbatim>\<open>generateNewJobID\<close> (\<open>None\<close> for an error), the two clock readings, the
  answer to the request (an error text, or the pid and start time of
  \<^verbatim>\<open>RunCmdResponse\<close>), whether \<^verbatim>\<open>CreateJob\<close> fails, and the job that arrives on the
  done-channel while the loop waits for this child (\<open>None\<close> when none ever arrives, and
  the receive blocks for good).
\<close>

datatype event =
    is_SendRunCmd: SendRunCmd (sentTo: string) (sentJob: Job)
  | is_CreateJobCall: CreateJobCall (createdJob: Job) (stored: bool)

record child_env =
  newJobID :: "string option"
  startNow :: int
  sshResp :: "string + int \<times> int"
  failNow :: int
  createJobFails :: bool
  doneJob :: "Job option"

definition createAndRunJob ::
  "string \<Rightarrow> string \<Rightarrow> string \<Rightarrow> string \<Rightarrow> string \<Rightarrow> int \<Rightarrow> bool \<Rightarrow> bool \<Rightarrow> bool
     \<Rightarrow> Client \<Rightarrow> child_env \<Rightarrow> event list \<times> bool" where
  "createAndRunJob multiJobID cmd interpreter createdBy cwd timeoutSec isSudo isScript hasShebang
       client env =
     (case newJobID env of
        None \<Rightarrow> ([], False)
      | Some jid \<Rightarrow>
          (let curJob = \<lparr>JID = jid, Status = NoStatus, FinishedAt = None, StartedAt = startNow env,
                         ClientID = ID client, ClientName = Name client, Command = cmd, Cwd = cwd,
                         IsSudo = isSudo, IsScript = isScript, Interpreter = interpreter,
                         CreatedBy = createdBy, TimeoutSec = timeoutSec,
                         MultiJobID = Some multiJobID, HasShebang = hasShebang, PID = None,
                         Error = [], Result = None\<rparr>;
               sent = SendRunCmd (ID client) curJob
           in case sshResp env of
                Inl err \<Rightarrow>
                  (let failed = curJob\<lparr>Status := JobStatusFailed, FinishedAt := Some (failNow env),
                                        Error := err\<rparr>
                   in ([sent, CreateJobCall failed (\<not> createJobFails env)], False))
              | Inr (pid, startedAt) \<Rightarrow>
                  (let running = curJob\<lparr>PID := Some pid, StartedAt := startedAt,
                                         Status := JobStatusRunning\<rparr>
                   in ([sent, CreateJobCall running (\<not> createJobFails env)], True))))"

text \<open>
  How a run of \<^verbatim>\<open>executeMultiClientJob\<close> ends: it returns, or it stays blocked in the
  receive on the done-channel.
\<close>

datatype outcome = Returned | BlockedOnDoneChannel

definition andThen :: "event list \<Rightarrow> event list \<times> outcome \<Rightarrow> event list \<times> outcome" where
  "andThen evs r = (evs @ fst r, snd r)"

text \<open>
  The body of the loop picks the command for the client and calls \<^verbatim>\<open>createAndRunJob\<close>
  (\<open>runChild\<close>). The loop runs over the targets, each paired with what the outside
  answers for it. On the
  concurrent path every child is started with \<^verbatim>\<open>go\<close> and the loop goes on at once; the
  events of the children are listed in target order, one of the interleavings the
  goroutines admit. \<open>insecureForTests\<close> is the listener's flag of that name.
\<close>

definition runChild :: "MultiJob \<Rightarrow> (string \<rightharpoonup> string) \<Rightarrow> Client \<Rightarrow> child_env \<Rightarrow> event list \<times> bool" where
  "runChild job clientIDCommandMap client env =
     (let command = (case clientIDCommandMap (ID client) of Some c \<Rightarrow> c | None \<Rightarrow> mCommand job)
      in createAndRunJob (mJID job) command (mInterpreter job) (mCreatedBy job) (mCwd job)
           (mTimeoutSec job) (mIsSudo job) (mIsScript job) (mHasShebang job) client env)"

fun executeMultiClientJob ::
  "bool \<Rightarrow> MultiJob \<Rightarrow> (Client \<times> child_env) list \<Rightarrow> (string \<rightharpoonup> string) \<Rightarrow> event list \<times> outcome" where
  "executeMultiClientJob insecureForTests job [] clientIDCommandMap = ([], Returned)"
| "executeMultiClientJob insecureForTests job ((client, env) # orderedClients) clientIDCommandMap =
     (let run = runChild job clientIDCommandMap client env;
          next = executeMultiClientJob insecureForTests job orderedClients clientIDCommandMap
      in if Concurrent job then andThen (fst run) next
         else if \<not> snd run then
           (if AbortOnErr job then (fst run, Returned) else andThen (fst run) next)
         else if insecureForTests then andThen (fst run) next
         else
           (case doneJob env of
              None \<Rightarrow> (fst run, BlockedOnDoneChannel)
            | Some jobResult \<Rightarrow>
                (if AbortOnErr job \<and> Status jobResult = JobStatusFailed then (fst run, Returned)
                 else andThen (fst run) next)))"


section \<open>Job store (the \<^verbatim>\<open>JobProvider\<close> interface of server/api_middleware.go)\<close>

text \<open>
  Modelled from the spec: the SQLite job provider behind the \<^verbatim>\<open>JobProvider\<close>
  interface (\<^verbatim>\<open>SaveJob\<close>, \<^verbatim>\<open>CreateJob\<close>, \<^verbatim>\<open>GetByJID\<close>, \<^verbatim>\<open>GetByMultiJobID\<close>) is
  not among the sources; the interface with its comments and the provider's test are.
  The store is the table of job rows in the order they were inserted, at most one row per
  \<open>jid\<close>. \<^verbatim>\<open>SaveJob\<close> creates or updates the row with the job's \<open>jid\<close>;
  \<^verbatim>\<open>CreateJob\<close> creates it and does nothing when a row with that \<open>jid\<close> exists; both
  return no error. \<^verbatim>\<open>GetByJID\<close> looks the row up by \<open>jid\<close>, the key the spec declares
  unique (the spec does not say what the client id adds to the lookup).
\<close>

type_synonym job_store = "Job list"

definition hasJID :: "job_store \<Rightarrow> string \<Rightarrow> bool" where
  "hasJID rows jid = list_ex (\<lambda>row. JID row = jid) rows"

definition SaveJob :: "job_store \<Rightarrow> Job \<Rightarrow> job_store \<times> string option" where
  "SaveJob rows job =
     (if hasJID rows (JID job)
      then (map (\<lambda>row. if JID row = JID job then job else row) rows, None)
      else (rows @ [job], None))"

definition CreateJob :: "job_store \<Rightarrow> Job \<Rightarrow> job_store \<times> string option" where
  "CreateJob rows job =
     (if hasJID rows (JID job) then (rows, None) else (rows @ [job], None))"

definition GetByJID :: "job_store \<Rightarrow> string \<Rightarrow> string \<Rightarrow> Job option" where
  "GetByJID rows clientID jid = find (\<lambda>row. JID row = jid) rows"

text \<open>
  Text columns compare bytewise: \<open>strLe a b\<close> is \<open>a \<le> b\<close> in that order.
\<close>

fun strLe :: "string \<Rightarrow> string \<Rightarrow> bool" where
  "strLe [] b = True"
| "strLe (x # a) [] = False"
| "strLe (x # a) (y # b) =
     ((of_char x :: nat) < of_char y \<or> (x = y \<and> strLe a b))"

text \<open>
  Modelled from the spec: the order the spec states for \<^verbatim>\<open>get_by_multi_job_id\<close>,
  \<^verbatim>\<open>finished_at\<close> descending, then \<^verbatim>\<open>started_at\<close> ascending, then \<^verbatim>\<open>jid\<close>
  ascending. \<open>specBefore a b\<close> says that row \<open>a\<close> may stand before row \<open>b\<close> in that
  order; a row without \<^verbatim>\<open>finished_at\<close> counts as the earliest.
\<close>

definition optLess :: "int option \<Rightarrow> int option \<Rightarrow> bool" where
  "optLess a b =
     (case (a, b) of
        (None, None) \<Rightarrow> False
      | (None, Some y) \<Rightarrow> True
      | (Some x, None) \<Rightarrow> False
      | (Some x, Some y) \<Rightarrow> x < y)"

definition specBefore :: "Job \<Rightarrow> Job \<Rightarrow> bool" where
  "specBefore a b =
     (optLess (FinishedAt b) (FinishedAt a)
      \<or> (FinishedAt a = FinishedAt b
          \<and> (StartedAt a < StartedAt b
              \<or> (StartedAt a = StartedAt b \<and> strLe (JID a) (JID b)))))"

text \<open>
  Modelled from the spec: \<^verbatim>\<open>GetByMultiJobID\<close> returns the rows whose
  \<^verbatim>\<open>multi_job_id\<close> is the one asked for. The provider's query is not among the
  sources, so the order it gives the rows is not known from the code. It is an input here:
  \<open>orderBy\<close> stands for the ordering clause of the query and is applied to the rows
  selected.
\<close>

definition GetByMultiJobID :: "(Job list \<Rightarrow> Job list) \<Rightarrow> job_store \<Rightarrow> string \<Rightarrow> Job list" where
  "GetByMultiJobID orderBy rows jid = orderBy (filter (\<lambda>row. MultiJobID row = Some jid) rows)"

text \<open>
  The rows of \<^verbatim>\<open>TestGetByMultiJobID\<close>. The job builder of the tests is not among the
  sources: \<open>d\<close> is the job it builds when no field is set, and \<open>jid1\<close>, \<open>jid2\<close> are
  the identifiers of the two jobs whose \<open>jid\<close> the test does not set. \<open>t1\<close> is
  \<^verbatim>\<open>2020-08-19T13:09:23+03:00\<close> in seconds since 1970; times are in seconds here.
  \<open>testStore\<close> is the store after the five \<^verbatim>\<open>SaveJob\<close> calls of the test and
  \<open>testExpected\<close> the list the test requires of \<^verbatim>\<open>GetByMultiJobID\<close>.
\<close>

definition t1 :: int where "t1 = 1597831763"

definition testJob1 :: "Job \<Rightarrow> string \<Rightarrow> Job" where
  "testJob1 d jid1 = d\<lparr>JID := jid1, Status := JobStatusRunning, Result := None\<rparr>"

definition testJob2 :: "Job \<Rightarrow> string \<Rightarrow> string \<Rightarrow> Job" where
  "testJob2 d jid1 jid2 = d\<lparr>JID := jid2, MultiJobID := Some ''4321'', ClientID := ClientID (testJob1 d jid1)\<rparr>"

definition testJob3 :: "Job \<Rightarrow> Job" where
  "testJob3 d = d\<lparr>JID := ''1111'', MultiJobID := Some ''1234'', FinishedAt := Some t1\<rparr>"

definition testJob4 :: "Job \<Rightarrow> Job" where
  "testJob4 d = d\<lparr>JID := ''2222'', MultiJobID := Some ''1234'', Status := JobStatusRunning\<rparr>"

definition testJob5 :: "Job \<Rightarrow> Job" where
  "testJob5 d = d\<lparr>JID := ''3333'', MultiJobID := Some ''1234'', Status := JobStatusFailed,
                   StartedAt := StartedAt (testJob3 d) + 1, FinishedAt := Some (t1 - 3600)\<rparr>"

definition testStore :: "Job \<Rightarrow> string \<Rightarrow> string \<Rightarrow> job_store" where
  "testStore d jid1 jid2 =
     fst (SaveJob (fst (SaveJob (fst (SaveJob (fst (SaveJob (fst (SaveJob []
       (testJob1 d jid1))) (testJob2 d jid1 jid2))) (testJob3 d))) (testJob4 d))) (testJob5 d))"

definition testExpected :: "Job \<Rightarrow> Job list" where
  "testExpected d = [testJob5 d, testJob3 d, testJob4 d]"

text \<open>A job to stand for the builder's default where a concrete one is needed.\<close>

definition someJob :: Job where
  "someJob = \<lparr>JID = ''0000'', Status = JobStatusSuccessful, FinishedAt = Some 1602324620,
               StartedAt = 1602324610, ClientID = ''client-1'', ClientName = ''client-1'',
               Command = ''ls'', Cwd = [], IsSudo = False, IsScript = False, Interpreter = [],
               CreatedBy = ''admin'', TimeoutSec = 60, MultiJobID = None, HasShebang = False,
               PID = Some 123, Error = [], Result = None\<rparr>"


section \<open>Ban list with a maximum of bad attempts (share/security/banlist.go)\<close>

text \<open>
  \<^verbatim>\<open>MaxBadAttemptsBanList\<close> keeps a \<^verbatim>\<open>map[string]*visitor\<close>. Only the map
  holds the pointers, so the map of pointers is a partial map into visitor records.
  \<^verbatim>\<open>badAttempts\<close> and \<^verbatim>\<open>maxBadAttempts\<close> are Go \<^verbatim>\<open>int\<close>s (64 bits on the
  platforms the server is built for): \<^verbatim>\<open>v.badAttempts++\<close> wraps around.
  \<^verbatim>\<open>time.Now()\<close> is an input of every call (an integer count of nanoseconds), and
  \<^verbatim>\<open>t.Add(d)\<close> is addition. The mutex and the logger have no effect on the state.
\<close>

record visitor =
  badAttempts :: "64 word"
  banTime :: "int option"

record MaxBadAttemptsBanList =
  banDuration :: int
  maxBadAttempts :: "64 word"
  visitors :: "string \<rightharpoonup> visitor"

definition NewMaxBadAttemptsBanList :: "64 word \<Rightarrow> int \<Rightarrow> MaxBadAttemptsBanList" where
  "NewMaxBadAttemptsBanList maxBad dur =
     \<lparr>banDuration = dur, maxBadAttempts = maxBad, visitors = Map.empty\<rparr>"

definition AddBadAttempt :: "MaxBadAttemptsBanList \<Rightarrow> string \<Rightarrow> int \<Rightarrow> MaxBadAttemptsBanList" where
  "AddBadAttempt l visitorKey now =
     (let v = (case visitors l visitorKey of
                 None \<Rightarrow> \<lparr>badAttempts = 0, banTime = None\<rparr>
               | Some v0 \<Rightarrow> v0);
          v1 = v\<lparr>badAttempts := badAttempts v + 1\<rparr>;
          v2 = (if badAttempts v1 = maxBadAttempts l
                then v1\<lparr>banTime := Some (now + banDuration l), badAttempts := 0\<rparr>
                else v1)
      in l\<lparr>visitors := (visitors l)(visitorKey \<mapsto> v2)\<rparr>)"

definition AddSuccessAttempt :: "MaxBadAttemptsBanList \<Rightarrow> string \<Rightarrow> MaxBadAttemptsBanList" where
  "AddSuccessAttempt l visitorKey =
     (case visitors l visitorKey of
        None \<Rightarrow> l
      | Some v \<Rightarrow> l\<lparr>visitors := (visitors l)(visitorKey \<mapsto> v\<lparr>badAttempts := 0, banTime := None\<rparr>)\<rparr>)"

definition IsBanned :: "MaxBadAttemptsBanList \<Rightarrow> string \<Rightarrow> int \<Rightarrow> bool" where
  "IsBanned l visitorKey now =
     (case visitors l visitorKey of
        None \<Rightarrow> False
      | Some v \<Rightarrow> (case banTime v of None \<Rightarrow> False | Some t \<Rightarrow> now < t))"

text \<open>Consecutive calls of \<^verbatim>\<open>AddBadAttempt\<close> for one key, one clock reading per call.\<close>

fun AddBadAttempts :: "MaxBadAttemptsBanList \<Rightarrow> string \<Rightarrow> int list \<Rightarrow> MaxBadAttemptsBanList" where
  "AddBadAttempts l k [] = l"
| "AddBadAttempts l k (t # ts) = AddBadAttempts (AddBadAttempt l k t) k ts"

text \<open>A key with no recorded state: unknown, or known with no bad attempt and no ban.\<close>

definition clean :: "MaxBadAttemptsBanList \<Rightarrow> string \<Rightarrow> bool" where
  "clean l k =
     (case visitors l k of
        None \<Rightarrow> True
      | Some v \<Rightarrow> badAttempts v = 0 \<and> banTime v = None)"

section \<open>Tunnel ACL (server/clients/tunnel_acl.go)\<close>

text \<open>
  The ACL code rests on Go's \<^verbatim>\<open>net\<close> package. Its values and operations are written
  out here as that package defines them: a \<^verbatim>\<open>net.IP\<close> is a byte slice of length 4 or
  16 (\<^verbatim>\<open>nil\<close> is the empty slice), an IPv4 address made by \<^verbatim>\<open>net.IPv4\<close> or by the
  parsers is the 16-byte form with the prefix \<^verbatim>\<open>v4InV6Prefix\<close>, and \<^verbatim>\<open>To4\<close>,
  \<^verbatim>\<open>Equal\<close>, \<^verbatim>\<open>Mask\<close>, \<^verbatim>\<open>CIDRMask\<close> and \<^verbatim>\<open>IPNet.Contains\<close> work on the bytes.
  The parser of dotted quads and of the prefix length is written out too
  (\<^verbatim>\<open>dtoi\<close>, \<^verbatim>\<open>parseIPv4\<close>, \<^verbatim>\<open>ParseIP\<close>, \<^verbatim>\<open>ParseCIDR\<close>); the parser of IPv6
  text is the parameter \<open>parseIPv6\<close>.
\<close>

unbundle bit_operations_syntax

type_synonym IP = "8 word list"

definition v4InV6Prefix :: IP where
  "v4InV6Prefix = [0, 0, 0, 0, 0, 0, 0, 0, 0, 0, 0xff, 0xff]"

definition IPv4 :: "8 word \<Rightarrow> 8 word \<Rightarrow> 8 word \<Rightarrow> 8 word \<Rightarrow> IP" where
  "IPv4 a b c d = v4InV6Prefix @ [a, b, c, d]"

definition IPv4zero :: IP where
  "IPv4zero = IPv4 0 0 0 0"

definition IPv4Mask :: "8 word \<Rightarrow> 8 word \<Rightarrow> 8 word \<Rightarrow> 8 word \<Rightarrow> IP" where
  "IPv4Mask a b c d = [a, b, c, d]"

definition isZeros :: "IP \<Rightarrow> bool" where
  "isZeros p = list_all (\<lambda>b. b = 0) p"

definition allFF :: "IP \<Rightarrow> bool" where
  "allFF p = list_all (\<lambda>b. b = 0xff) p"

definition To4 :: "IP \<Rightarrow> IP option" where
  "To4 ip =
     (if length ip = 4 then Some ip
      else if length ip = 16 \<and> isZeros (take 10 ip) \<and> ip ! 10 = 0xff \<and> ip ! 11 = 0xff
           then Some (drop 12 ip)
      else None)"

definition Equal :: "IP \<Rightarrow> IP \<Rightarrow> bool" where
  "Equal ip x =
     (if length ip = length x then ip = x
      else if length ip = 4 \<and> length x = 16 then take 12 x = v4InV6Prefix \<and> ip = drop 12 x
      else if length ip = 16 \<and> length x = 4 then take 12 ip = v4InV6Prefix \<and> drop 12 ip = x
      else False)"

definition Mask :: "IP \<Rightarrow> IP \<Rightarrow> IP" where
  "Mask ip msk =
     (let mask1 = (if length msk = 16 \<and> length ip = 4 \<and> allFF (take 12 msk)
                   then drop 12 msk else msk);
          ip1 = (if length mask1 = 4 \<and> length ip = 16 \<and> take 12 ip = v4InV6Prefix
                 then drop 12 ip else ip)
      in if length ip1 \<noteq> length mask1 then []
         else map2 (\<lambda>b m. b AND m) ip1 mask1)"

fun maskBytes :: "nat \<Rightarrow> nat \<Rightarrow> IP" where
  "maskBytes 0 n = []"
| "maskBytes (Suc l) n =
     (if n \<ge> 8 then 0xff # maskBytes l (n - 8)
      else (NOT (drop_bit n 0xff)) # maskBytes l 0)"

definition CIDRMask :: "nat \<Rightarrow> nat \<Rightarrow> IP" where
  "CIDRMask ones bits =
     (if bits \<noteq> 32 \<and> bits \<noteq> 128 then []
      else if ones > bits then []
      else maskBytes (bits div 8) ones)"

record IPNet =
  IP :: IP
  IPMask :: IP

definition networkNumberAndMask :: "IPNet \<Rightarrow> IP \<times> IP" where
  "networkNumberAndMask n =
     (case (case To4 (IP n) of
              Some ip4 \<Rightarrow> Some ip4
            | None \<Rightarrow> (if length (IP n) \<noteq> 16 then None else Some (IP n))) of
        None \<Rightarrow> ([], [])
      | Some ip \<Rightarrow>
          (let m = IPMask n
           in if length m = 4 then (if length ip \<noteq> 4 then ([], []) else (ip, m))
              else if length m = 16 then (if length ip = 4 then (ip, drop 12 m) else (ip, m))
              else ([], [])))"

definition IPNetContains :: "IPNet \<Rightarrow> IP \<Rightarrow> bool" where
  "IPNetContains n ip =
     (case networkNumberAndMask n of
        (nn, m) \<Rightarrow>
          (let ip1 = (case To4 ip of Some x \<Rightarrow> x | None \<Rightarrow> ip)
           in if length ip1 \<noteq> length nn then False
              else list_all (\<lambda>i. nn ! i AND m ! i = ip1 ! i AND m ! i) [0 ..< length ip1]))"

text \<open>
  \<^verbatim>\<open>dtoi\<close>: the decimal number at the start of a string, the number of characters it
  takes, and whether there is one that stays below \<^verbatim>\<open>big = 0xFFFFFF\<close>.
\<close>

definition isDigit :: "char \<Rightarrow> bool" where
  "isDigit c = (48 \<le> (of_char c :: nat) \<and> (of_char c :: nat) \<le> 57)"

fun dtoiLoop :: "string \<Rightarrow> nat \<Rightarrow> nat \<Rightarrow> nat \<times> nat \<times> bool" where
  "dtoiLoop [] n i = (n, i, True)"
| "dtoiLoop (c # s) n i =
     (if isDigit c then
        (let n' = n * 10 + (of_char c - 48)
         in if n' \<ge> 0xFFFFFF then (0xFFFFFF, i, False) else dtoiLoop s n' (Suc i))
      else (n, i, True))"

definition dtoi :: "string \<Rightarrow> nat \<times> nat \<times> bool" where
  "dtoi s =
     (case dtoiLoop s 0 0 of
        (n, i, ok) \<Rightarrow> if \<not> ok then (n, i, False) else if i = 0 then (0, 0, False) else (n, i, True))"

text \<open>
  \<^verbatim>\<open>parseIPv4\<close>: four decimal fields separated by dots, each at most 255 and without a
  leading zero unless it is the single digit 0, and nothing after the fourth.
\<close>

fun parseIPv4Fields :: "nat \<Rightarrow> nat \<Rightarrow> string \<Rightarrow> 8 word list \<Rightarrow> 8 word list option" where
  "parseIPv4Fields 0 i s p = (if s \<noteq> [] then None else Some p)"
| "parseIPv4Fields (Suc k) i s p =
     (if s = [] then None
      else if i > 0 \<and> hd s \<noteq> CHR ''.'' then None
      else
        (let s1 = (if i > 0 then tl s else s)
         in case dtoi s1 of
              (n, c, ok) \<Rightarrow>
                if \<not> ok \<or> n > 0xFF then None
                else if c > 1 \<and> hd s1 = CHR ''0'' then None
                else parseIPv4Fields k (Suc i) (drop c s1) (p @ [of_nat n])))"

definition parseIPv4 :: "string \<Rightarrow> IP option" where
  "parseIPv4 s =
     (case parseIPv4Fields 4 0 s [] of
        Some [a, b, c, d] \<Rightarrow> Some (IPv4 a b c d)
      | _ \<Rightarrow> None)"

fun ParseIP :: "(string \<Rightarrow> IP option) \<Rightarrow> string \<Rightarrow> IP option" where
  "ParseIP parseIPv6 s =
     (case dropWhile (\<lambda>c. c \<noteq> CHR ''.'' \<and> c \<noteq> CHR '':'') s of
        [] \<Rightarrow> None
      | c # _ \<Rightarrow> if c = CHR ''.'' then parseIPv4 s else parseIPv6 s)"

definition ParseCIDR :: "(string \<Rightarrow> IP option) \<Rightarrow> string \<Rightarrow> (IP \<times> IPNet) option" where
  "ParseCIDR parseIPv6 s =
     (if CHR ''/'' \<notin> set s then None
      else
        (let addr = takeWhile (\<lambda>c. c \<noteq> CHR ''/'') s;
             msk = tl (dropWhile (\<lambda>c. c \<noteq> CHR ''/'') s);
             v4 = parseIPv4 addr;
             iplen = (if v4 = None then 16 else 4 :: nat);
             ip = (if v4 = None then parseIPv6 addr else v4)
         in case dtoi msk of
              (n, i, ok) \<Rightarrow>
                (case ip of
                   None \<Rightarrow> None
                 | Some ip' \<Rightarrow>
                     if \<not> ok \<or> i \<noteq> length msk \<or> n > 8 * iplen then None
                     else
                       (let m = CIDRMask n (8 * iplen)
                        in Some (ip', \<lparr>IP = Mask ip' m, IPMask = m\<rparr>)))))"

text \<open>The repository's own code: \<^verbatim>\<open>TunnelACL\<close>, \<^verbatim>\<open>parseIPNet\<close>, \<^verbatim>\<open>ParseTunnelACL\<close>.\<close>

record TunnelACL =
  AllowedIPs :: "IPNet list"

datatype acl_error =
    ParseCIDRError string
  | InvalidIPAddr string
  | NotIPv4Address string
  | ZeroAddressNotAllowed

definition CheckAccess :: "TunnelACL \<Rightarrow> IP \<Rightarrow> bool" where
  "CheckAccess a ip =
     (if length (AllowedIPs a) = 0 then True
      else list_ex (\<lambda>allowed. IPNetContains allowed ip) (AllowedIPs a))"

text \<open>
  \<^verbatim>\<open>ParseTunnelACL\<close> returns a \<^verbatim>\<open>*TunnelACL\<close>, while \<^verbatim>\<open>CheckAccess\<close> has a value
  receiver. A call \<^verbatim>\<open>acl.CheckAccess(ip)\<close> on such a pointer is
  \<^verbatim>\<open>(*acl).CheckAccess(ip)\<close>: it loads the struct first, and that load panics with a
  nil pointer dereference when the pointer is \<^verbatim>\<open>nil\<close>. \<open>CheckAccessPtr\<close> is that call,
  with the panic as a value.
\<close>

datatype go_panic = NilPointerDereference

definition CheckAccessPtr :: "TunnelACL option \<Rightarrow> IP \<Rightarrow> go_panic + bool" where
  "CheckAccessPtr acl ip =
     (case acl of
        None \<Rightarrow> Inl NilPointerDereference
      | Some a \<Rightarrow> Inr (CheckAccess a ip))"

definition parseIPNet :: "(string \<Rightarrow> IP option) \<Rightarrow> string \<Rightarrow> acl_error + IPNet" where
  "parseIPNet parseIPv6 strVal =
     (case (if CHR ''/'' \<in> set strVal then
              (case ParseCIDR parseIPv6 strVal of
                 None \<Rightarrow> Inl (ParseCIDRError strVal)
               | Some (ip, ipNet) \<Rightarrow> Inr (ip, Some ipNet))
            else
              (case ParseIP parseIPv6 strVal of
                 None \<Rightarrow> Inl (InvalidIPAddr strVal)
               | Some ip \<Rightarrow> Inr (ip, None))) of
        Inl err \<Rightarrow> Inl err
      | Inr (ip, ipNet) \<Rightarrow>
          if To4 ip = None then Inl (NotIPv4Address strVal)
          else if Equal ip IPv4zero then Inl ZeroAddressNotAllowed
          else
            (case ipNet of
               None \<Rightarrow> Inr \<lparr>IP = ip, IPMask = IPv4Mask 255 255 255 255\<rparr>
             | Some n \<Rightarrow> Inr n))"

fun parseValues :: "(string \<Rightarrow> IP option) \<Rightarrow> string list \<Rightarrow> IPNet list \<Rightarrow> acl_error + IPNet list" where
  "parseValues parseIPv6 [] allowed = Inr allowed"
| "parseValues parseIPv6 (strVal # values) allowed =
     (case parseIPNet parseIPv6 strVal of
        Inl err \<Rightarrow> Inl err
      | Inr ipNet \<Rightarrow> parseValues parseIPv6 values (allowed @ [ipNet]))"

definition ParseTunnelACL :: "(string \<Rightarrow> IP option) \<Rightarrow> string \<Rightarrow> acl_error + TunnelACL option" where
  "ParseTunnelACL parseIPv6 str =
     (if str = [] then Inr None
      else
        (case parseValues parseIPv6 (Split str CHR '','') [] of
           Inl err \<Rightarrow> Inl err
         | Inr allowed \<Rightarrow> Inr (Some \<lparr>AllowedIPs = allowed\<rparr>)))"

text \<open>
  Specification of the claim about ACL strings. An entry is a dotted quad with an optional
  prefix length; \<open>renderEntry\<close> writes it in the canonical decimal form and
  \<open>validEntry\<close> says that the four numbers are bytes, not all zero, and the prefix
  length at most 32.
\<close>

type_synonym cidr_entry = "(nat \<times> nat \<times> nat \<times> nat) \<times> nat option"

definition renderQuad :: "nat \<times> nat \<times> nat \<times> nat \<Rightarrow> string" where
  "renderQuad q =
     (case q of (a, b, c, d) \<Rightarrow>
        natToDec a @ ''.'' @ natToDec b @ ''.'' @ natToDec c @ ''.'' @ natToDec d)"

definition renderEntry :: "cidr_entry \<Rightarrow> string" where
  "renderEntry e =
     (case e of
        (q, None) \<Rightarrow> renderQuad q
      | (q, Some p) \<Rightarrow> renderQuad q @ ''/'' @ natToDec p)"

definition validEntry :: "cidr_entry \<Rightarrow> bool" where
  "validEntry e =
     (case e of ((a, b, c, d), pfx) \<Rightarrow>
        a < 256 \<and> b < 256 \<and> c < 256 \<and> d < 256 \<and> (a, b, c, d) \<noteq> (0, 0, 0, 0)
        \<and> (case pfx of None \<Rightarrow> True | Some p \<Rightarrow> p \<le> 32))"

text \<open>
  Membership of an address in the block of an entry, stated on numbers and without any
  mask: \<open>addrValue\<close> reads bytes as a number, most significant byte first;
  \<open>ipv4Number\<close> is the 32-bit number of an IPv4 address, given by its four bytes or by
  the sixteen bytes that start with \<^verbatim>\<open>::ffff:\<close>, and nothing for any other byte string;
  \<open>inCIDR x e\<close> says that \<open>x\<close> is an IPv4 address whose number and the number of the
  entry's address have the same leading \<open>p\<close> bits, that is, the same quotient by
  \<open>2 ^ (32 - p)\<close>, where \<open>p\<close> is the prefix length of the entry, or 32 when it has
  none.
\<close>

fun addrValue :: "8 word list \<Rightarrow> nat" where
  "addrValue [] = 0"
| "addrValue (b # bs) = unat b * 256 ^ length bs + addrValue bs"

definition ipv4Number :: "IP \<Rightarrow> nat option" where
  "ipv4Number x =
     (if length x = 4 then Some (addrValue x)
      else if length x = 16 \<and> take 12 x = [0, 0, 0, 0, 0, 0, 0, 0, 0, 0, 0xff, 0xff]
           then Some (addrValue (drop 12 x))
      else None)"

definition inCIDR :: "IP \<Rightarrow> cidr_entry \<Rightarrow> bool" where
  "inCIDR x e =
     (case e of ((a, b, c, d), pfx) \<Rightarrow>
        (case ipv4Number x of
           None \<Rightarrow> False
         | Some v \<Rightarrow>
             (let p = (case pfx of None \<Rightarrow> 32 | Some p \<Rightarrow> p)
              in v div 2 ^ (32 - p)
                 = (a * 2 ^ 24 + b * 2 ^ 16 + c * 2 ^ 8 + d) div 2 ^ (32 - p))))"

section \<open>Port distributor (server/ports/port_distributor.go)\<close>

text \<open>
  A \<^verbatim>\<open>mapset.Set\<close> of ports is the list of its elements; the order of the list carries
  no meaning, and every operation below reads the list only through its elements, except
  \<^verbatim>\<open>Pop\<close>. \<^verbatim>\<open>Pop\<close> takes whichever element Go's map iteration yields first:
  the caller supplies that choice as an index, so every element can be the one popped.
  A \<^verbatim>\<open>nil\<close> set (an absent entry of \<^verbatim>\<open>portsPools\<close>) is \<open>None\<close>.
\<close>

type_synonym port_set = "int list"

definition Pop :: "nat \<Rightarrow> port_set \<Rightarrow> int option \<times> port_set" where
  "Pop choice s =
     (if s = [] then (None, s)
      else let item = s ! (choice mod length s) in (Some item, removeAll item s))"

definition Remove :: "int \<Rightarrow> port_set \<Rightarrow> port_set" where
  "Remove i s = removeAll i s"

definition Contains :: "port_set \<Rightarrow> int \<Rightarrow> bool" where
  "Contains s i = (i \<in> set s)"

definition Intersect :: "port_set \<Rightarrow> port_set \<Rightarrow> port_set" where
  "Intersect s other = filter (\<lambda>i. i \<in> set other) s"

definition Difference :: "port_set \<Rightarrow> port_set \<Rightarrow> port_set" where
  "Difference s other = filter (\<lambda>i. i \<notin> set other) s"

text \<open>
  Modelled from the spec: the protocol names of \<^verbatim>\<open>share/models\<close>, which the
  distributor uses as keys of its pools (\<^verbatim>\<open>"tcp"\<close>, \<^verbatim>\<open>"udp"\<close> and the synthetic
  \<^verbatim>\<open>"tcp+udp"\<close>).
\<close>

definition ProtocolTCP :: string where "ProtocolTCP = ''tcp''"
definition ProtocolUDP :: string where "ProtocolUDP = ''udp''"
definition ProtocolTCPUDP :: string where "ProtocolTCPUDP = ''tcp+udp''"

record PortDistributor =
  allowedPorts :: port_set
  portsPools :: "string \<rightharpoonup> port_set"

datatype port_error =
    ListBusyPortsFailed string
  | NoPortsAvailable
  | NilPoolDereference

definition NewPortDistributor :: "port_set \<Rightarrow> PortDistributor" where
  "NewPortDistributor allowed = \<lparr>allowedPorts = allowed, portsPools = Map.empty\<rparr>"

definition NewPortDistributorForTests :: "port_set \<Rightarrow> port_set \<Rightarrow> port_set \<Rightarrow> PortDistributor" where
  "NewPortDistributorForTests allowed tcpPortsPool udpPortsPool =
     \<lparr>allowedPorts = allowed,
      portsPools = [ProtocolTCP \<mapsto> tcpPortsPool, ProtocolUDP \<mapsto> udpPortsPool]\<rparr>"

definition GetPortsPool :: "PortDistributor \<Rightarrow> string \<Rightarrow> port_set option" where
  "GetPortsPool d p = portsPools d p"

definition SetPortsPool :: "PortDistributor \<Rightarrow> string \<Rightarrow> port_set \<Rightarrow> PortDistributor" where
  "SetPortsPool d p m = d\<lparr>portsPools := (portsPools d)(p \<mapsto> m)\<rparr>"

text \<open>
  \<^verbatim>\<open>ListBusyPorts\<close> asks the operating system; its answer for a protocol is the
  parameter \<open>busy\<close>: an error message or the ports found listening.
\<close>

type_synonym busy_probe = "string \<Rightarrow> string + port_set"

definition refresh :: "busy_probe \<Rightarrow> PortDistributor \<Rightarrow> string \<Rightarrow> port_error + PortDistributor" where
  "refresh busy d protocol =
     (case busy protocol of
        Inl err \<Rightarrow> Inl (ListBusyPortsFailed err)
      | Inr busyPorts \<Rightarrow> Inr (SetPortsPool d protocol (Difference (allowedPorts d) busyPorts)))"

text \<open>
  \<^verbatim>\<open>getPool\<close>: the stored pool, or for \<^verbatim>\<open>tcp+udp\<close> a new set, the intersection of
  the two stored pools. Calling \<^verbatim>\<open>Intersect\<close> on or with a \<^verbatim>\<open>nil\<close> pool panics.
\<close>

definition getPool :: "PortDistributor \<Rightarrow> string \<Rightarrow> port_error + port_set option" where
  "getPool d protocol =
     (if protocol = ProtocolTCPUDP then
        (case (GetPortsPool d ProtocolTCP, GetPortsPool d ProtocolUDP) of
           (Some t, Some u) \<Rightarrow> Inr (Some (Intersect t u))
         | _ \<Rightarrow> Inl NilPoolDereference)
      else Inr (GetPortsPool d protocol))"

text \<open>The first loop of \<^verbatim>\<open>GetRandomPort\<close>: fill every missing pool, stop at the first error.\<close>

fun refreshMissing :: "busy_probe \<Rightarrow> PortDistributor \<Rightarrow> string list \<Rightarrow> port_error option \<times> PortDistributor" where
  "refreshMissing busy d [] = (None, d)"
| "refreshMissing busy d (p # ps) =
     (if GetPortsPool d p = None then
        (case refresh busy d p of
           Inl err \<Rightarrow> (Some err, d)
         | Inr d' \<Rightarrow> refreshMissing busy d' ps)
      else refreshMissing busy d ps)"

text \<open>The second loop: \<^verbatim>\<open>d.GetPortsPool(p).Remove(port)\<close> for every sub-protocol.\<close>

fun removeFromPools :: "PortDistributor \<Rightarrow> string list \<Rightarrow> int \<Rightarrow> port_error option \<times> PortDistributor" where
  "removeFromPools d [] port = (None, d)"
| "removeFromPools d (p # ps) port =
     (case GetPortsPool d p of
        None \<Rightarrow> (Some NilPoolDereference, d)
      | Some pool \<Rightarrow> removeFromPools (SetPortsPool d p (Remove port pool)) ps port)"

text \<open>
  \<^verbatim>\<open>GetRandomPort\<close> returns its result and leaves the distributor changed, also when
  it returns an error (a pool filled by the first loop stays filled). For a plain protocol
  \<^verbatim>\<open>getPool\<close> hands out the stored set itself, so \<^verbatim>\<open>Pop\<close> already changes the stored
  pool; for \<^verbatim>\<open>tcp+udp\<close> it pops from the temporary intersection.
\<close>

definition GetRandomPort ::
  "busy_probe \<Rightarrow> nat \<Rightarrow> PortDistributor \<Rightarrow> string \<Rightarrow> (port_error + int) \<times> PortDistributor" where
  "GetRandomPort busy choice d protocol =
     (let subProtocols =
            (if protocol = ProtocolTCPUDP then [ProtocolTCP, ProtocolUDP] else [protocol])
      in case refreshMissing busy d subProtocols of
           (Some err, d1) \<Rightarrow> (Inl err, d1)
         | (None, d1) \<Rightarrow>
             (case getPool d1 protocol of
                Inl err \<Rightarrow> (Inl err, d1)
              | Inr None \<Rightarrow> (Inl NilPoolDereference, d1)
              | Inr (Some pool) \<Rightarrow>
                  (case Pop choice pool of
                     (None, _) \<Rightarrow> (Inl NoPortsAvailable, d1)
                   | (Some port, pool') \<Rightarrow>
                       (let d2 = (if protocol = ProtocolTCPUDP then d1
                                  else SetPortsPool d1 protocol pool')
                        in case removeFromPools d2 subProtocols port of
                             (Some err, d3) \<Rightarrow> (Inl err, d3)
                           | (None, d3) \<Rightarrow> (Inr port, d3)))))"

definition IsPortAllowed :: "PortDistributor \<Rightarrow> int \<Rightarrow> bool" where
  "IsPortAllowed d port = Contains (allowedPorts d) port"


section \<open>List options to SQL (share/query/convert.go)\<close>

text \<open>
  Modelled from the spec: the option types of \<^verbatim>\<open>share/query\<close> (filtering by
  column, operator and values; sorting; field projection), whose declarations are not
  among the sources. The fields are those \<^verbatim>\<open>convert.go\<close> reads, plus the
  \<^verbatim>\<open>Pagination\<close> (offset, limit) that the package's test sets and the translation
  never reads. \<^verbatim>\<open>FieldsOption.Fields\<close> is \<open>FieldNames\<close> and \<^verbatim>\<open>SortOption.Column\<close>
  is \<open>SortColumn\<close> here, since a record field has one name per theory. The operator
  type and its \<^verbatim>\<open>Code()\<close> method are parameters: \<open>'op\<close> and \<open>code\<close>.
\<close>

record 'op FilterOption =
  Column :: string
  Operator :: 'op
  Values :: "string list"

record SortOption =
  SortColumn :: string
  IsASC :: bool

record FieldsOption =
  Resource :: string
  FieldNames :: "string list"

record 'op ListOptions =
  Sorts :: "SortOption list"
  Filters :: "'op FilterOption list"
  Fields :: "FieldsOption list"
  Pagination :: "(string \<times> string) option"

text \<open>
  The loop of \<^verbatim>\<open>addWhere\<close> over the filters, carrying \<^verbatim>\<open>whereParts\<close> and
  \<^verbatim>\<open>params\<close>. A filter with exactly one value gives \<^verbatim>\<open>column op ?\<close>; any other
  number of values gives the parenthesised \<^verbatim>\<open>OR\<close> of one such condition per value.
\<close>

fun whereLoop ::
  "('op \<Rightarrow> string) \<Rightarrow> 'op FilterOption list \<Rightarrow> string list \<times> string list \<Rightarrow> string list \<times> string list" where
  "whereLoop code [] (whereParts, params) = (whereParts, params)"
| "whereLoop code (fo # fos) (whereParts, params) =
     (if length (Values fo) = 1 then
        whereLoop code fos
          (whereParts @ [Column fo @ '' '' @ code (Operator fo) @ '' ?''],
           params @ [Values fo ! 0])
      else
        (let orParts = map (\<lambda>v. Column fo @ '' '' @ code (Operator fo) @ '' ?'') (Values fo)
         in whereLoop code fos
              (whereParts @ [''('' @ Join orParts '' OR '' @ '')''],
               params @ Values fo)))"

definition addWhere ::
  "('op \<Rightarrow> string) \<Rightarrow> 'op FilterOption list \<Rightarrow> string \<Rightarrow> string \<times> string list" where
  "addWhere code filterOptions q =
     (if length filterOptions = 0 then (q, [])
      else
        (case whereLoop code filterOptions ([], []) of
           (whereParts, params) \<Rightarrow>
             (let concat = (if ContainsStr (ToUpper q) '' WHERE '' then '' AND '' else '' WHERE '')
              in (q @ concat @ Join whereParts '' AND '' @ '' '', params))))"

definition addOrderBy :: "SortOption list \<Rightarrow> string \<Rightarrow> string" where
  "addOrderBy sortOptions q =
     (if length sortOptions = 0 then q
      else
        (let orderByValues =
               map (\<lambda>so. SortColumn so @ '' '' @ (if \<not> IsASC so then ''DESC'' else ''ASC'')) sortOptions
         in if length orderByValues > 0 then q @ ''ORDER BY '' @ Join orderByValues '', '' else q))"

definition ReplaceStarSelect :: "FieldsOption list \<Rightarrow> string \<Rightarrow> string" where
  "ReplaceStarSelect fieldOptions q =
     (if \<not> HasPrefix (ToUpper q) ''SELECT * '' then q
      else if length fieldOptions = 0 then q
      else
        (let fields = concat (map (\<lambda>fo. map (\<lambda>field. Resource fo @ ''.'' @ field) (FieldNames fo)) fieldOptions)
         in ReplaceFirst q ''*'' (Join fields '', '')))"

definition ConvertListOptionsToQuery ::
  "('op \<Rightarrow> string) \<Rightarrow> 'op ListOptions \<Rightarrow> string \<Rightarrow> string \<times> string list" where
  "ConvertListOptionsToQuery code lo q =
     (case addWhere code (Filters lo) q of
        (qOut, params) \<Rightarrow>
          (let qOut = addOrderBy (Sorts lo) qOut;
               qOut = ReplaceStarSelect (Fields lo) qOut
           in (qOut, params)))"


section \<open>Client session and its tunnel identifiers (package chserver, \<^verbatim>\<open>ClientSession\<close>)\<close>

text \<open>
  A tunnel as the session sees it: the identifier, the remote and the ACL handed to
  \<^verbatim>\<open>NewTunnel\<close>. The remote and the ACL are of types the session does not look into
  (\<open>'r\<close>, \<open>'a\<close>); \<^verbatim>\<open>Tunnel.Equals\<close> and the outcome of \<^verbatim>\<open>Tunnel.Start\<close> are inputs.
  \<^verbatim>\<open>tunnelIDAutoIncrement\<close> is an \<^verbatim>\<open>int64\<close>, and \<^verbatim>\<open>atomic.AddInt64\<close> wraps around.
\<close>

record ('r, 'a) Tunnel =
  TunnelID :: string
  TunnelRemote :: 'r
  TunnelACL :: 'a

record ('r, 'a) ClientSession =
  Tunnels :: "('r, 'a) Tunnel list"
  tunnelIDAutoIncrement :: "64 word"

definition generateNewTunnelID :: "('r, 'a) ClientSession \<Rightarrow> ('r, 'a) ClientSession \<times> 64 word" where
  "generateNewTunnelID c =
     (c\<lparr>tunnelIDAutoIncrement := tunnelIDAutoIncrement c + 1\<rparr>, tunnelIDAutoIncrement c + 1)"

definition findTunnelByRemote ::
  "(('r, 'a) Tunnel \<Rightarrow> 'r \<Rightarrow> bool) \<Rightarrow> ('r, 'a) ClientSession \<Rightarrow> 'r \<Rightarrow> ('r, 'a) Tunnel option" where
  "findTunnelByRemote Equals c r = find (\<lambda>curr. Equals curr r) (Tunnels c)"

definition NewTunnel :: "string \<Rightarrow> 'r \<Rightarrow> 'a \<Rightarrow> ('r, 'a) Tunnel" where
  "NewTunnel tunnelID r acl = \<lparr>TunnelID = tunnelID, TunnelRemote = r, TunnelACL = acl\<rparr>"

text \<open>
  \<^verbatim>\<open>StartTunnel\<close> returns the session, the tunnel or the error of \<^verbatim>\<open>Start\<close>, and the
  identifier it drew from the counter, if it drew one (the Go function does not return
  the last; it is kept here to speak about the identifiers handed out).
\<close>

definition StartTunnel ::
  "(('r, 'a) Tunnel \<Rightarrow> 'r \<Rightarrow> bool) \<Rightarrow> string option \<Rightarrow> ('r, 'a) ClientSession \<Rightarrow> 'r \<Rightarrow> 'a
     \<Rightarrow> ('r, 'a) ClientSession \<times> (string + ('r, 'a) Tunnel) \<times> 64 word option" where
  "StartTunnel Equals startErr c r acl =
     (case findTunnelByRemote Equals c r of
        Some t \<Rightarrow> (c, Inr t, None)
      | None \<Rightarrow>
          (case generateNewTunnelID c of
             (c1, n) \<Rightarrow>
               (let tunnelID = FormatInt (sint n);
                    t = NewTunnel tunnelID r acl
                in case startErr of
                     Some err \<Rightarrow> (c1, Inl err, Some n)
                   | None \<Rightarrow> (c1\<lparr>Tunnels := Tunnels c1 @ [t]\<rparr>, Inr t, Some n))))"

definition removeTunnel :: "('r, 'a) ClientSession \<Rightarrow> ('r, 'a) Tunnel \<Rightarrow> ('r, 'a) ClientSession" where
  "removeTunnel c t = c\<lparr>Tunnels := filter (\<lambda>curr. TunnelID curr \<noteq> TunnelID t) (Tunnels c)\<rparr>"

definition TerminateTunnel :: "('r, 'a) ClientSession \<Rightarrow> ('r, 'a) Tunnel \<Rightarrow> ('r, 'a) ClientSession" where
  "TerminateTunnel c t = removeTunnel c t"

definition FindTunnel :: "('r, 'a) ClientSession \<Rightarrow> string \<Rightarrow> ('r, 'a) Tunnel option" where
  "FindTunnel c tid = find (\<lambda>curr. TunnelID curr = tid) (Tunnels c)"

text \<open>
  The life of a session: a sequence of calls, each \<^verbatim>\<open>StartTunnel\<close> (with the outcome of
  \<^verbatim>\<open>Start\<close>) or \<^verbatim>\<open>TerminateTunnel\<close>. \<open>runSession\<close> performs them in order and lists
  the identifiers drawn from the counter, oldest first.
\<close>

datatype ('r, 'a) session_call =
    CallStartTunnel 'r 'a "string option"
  | CallTerminateTunnel "('r, 'a) Tunnel"

fun runSession ::
  "(('r, 'a) Tunnel \<Rightarrow> 'r \<Rightarrow> bool) \<Rightarrow> ('r, 'a) ClientSession \<Rightarrow> ('r, 'a) session_call list
     \<Rightarrow> ('r, 'a) ClientSession \<times> 64 word list" where
  "runSession Equals c [] = (c, [])"
| "runSession Equals c (CallStartTunnel r acl startErr # calls) =
     (case StartTunnel Equals startErr c r acl of
        (c1, res, drawn) \<Rightarrow>
          (case runSession Equals c1 calls of
             (c2, ids) \<Rightarrow> (c2, (case drawn of None \<Rightarrow> [] | Some n \<Rightarrow> [n]) @ ids)))"
| "runSession Equals c (CallTerminateTunnel t # calls) =
     runSession Equals (TerminateTunnel c t) calls"


section \<open>Verified properties\<close>

subsection \<open>Decimal numerals\<close>

lemma natToDec_nonempty: "natToDec n \<noteq> []"
  by (subst natToDec.simps) simp

subsection \<open>Sequential execution with abort on error\<close>

lemma runChild_counts:
  "length (filter is_SendRunCmd (fst (runChild job m client env))) \<le> 1"
  "length (filter is_CreateJobCall (fst (runChild job m client env))) \<le> 1"
  by (auto simp: runChild_def createAndRunJob_def Let_def split: option.splits sum.splits)

lemma runChild_success:
  "snd (runChild job m client env) \<longleftrightarrow> newJobID env \<noteq> None \<and> \<not> isl (sshResp env)"
  by (auto simp: runChild_def createAndRunJob_def Let_def split: option.splits sum.splits)

lemma executeMultiClientJob_counts:
  "length (filter is_SendRunCmd (fst (executeMultiClientJob t job targets m))) \<le> length targets
   \<and> length (filter is_CreateJobCall (fst (executeMultiClientJob t job targets m))) \<le> length targets"
proof (induction targets)
  case Nil
  show ?case by simp
next
  case (Cons x targets)
  obtain client env where x: "x = (client, env)" by (cases x)
  show ?case
    using Cons.IH runChild_counts [of job m client env]
    by (auto simp: x Let_def andThen_def split: option.splits)
qed

lemma executeMultiClientJob_children:
  "\<exists>k \<le> length targets.
     fst (executeMultiClientJob t job targets m)
       = concat (map (\<lambda>(client, env). fst (runChild job m client env)) (take k targets))"
proof (induction targets)
  case Nil
  show ?case by simp
next
  case (Cons x targets)
  obtain client env where x: "x = (client, env)" by (cases x)
  let ?f = "\<lambda>(client, env). fst (runChild job m client env)"
  from Cons.IH obtain k where k: "k \<le> length targets"
    "fst (executeMultiClientJob t job targets m) = concat (map ?f (take k targets))"
    by blast
  have go: "fst (andThen (fst (runChild job m client env)) (executeMultiClientJob t job targets m))
            = concat (map ?f (take (Suc k) (x # targets)))"
    by (simp add: andThen_def k(2) x)
  have stop: "fst (runChild job m client env) = concat (map ?f (take (Suc 0) (x # targets)))"
    by (simp add: x)
  have "fst (executeMultiClientJob t job (x # targets) m) = concat (map ?f (take (Suc k) (x # targets)))
      \<or> fst (executeMultiClientJob t job (x # targets) m) = concat (map ?f (take (Suc 0) (x # targets)))"
    unfolding go [symmetric] stop [symmetric]
    by (simp add: x Let_def split: option.splits)
  then show ?case
  proof
    assume "fst (executeMultiClientJob t job (x # targets) m) = concat (map ?f (take (Suc k) (x # targets)))"
    with k(1) show ?thesis by (intro exI [of _ "Suc k"]) simp
  next
    assume "fst (executeMultiClientJob t job (x # targets) m) = concat (map ?f (take (Suc 0) (x # targets)))"
    then show ?thesis by (intro exI [of _ "Suc 0"]) simp
  qed
qed

lemma executeMultiClientJob_stop:
  assumes "\<not> Concurrent job" and "AbortOnErr job"
    and "newJobID env = None \<or> isl (sshResp env)
         \<or> (\<not> t \<and> (\<exists>j. doneJob env = Some j \<and> Status j = JobStatusFailed))"
  shows "executeMultiClientJob t job ((client, env) # post) m
       = executeMultiClientJob t job [(client, env)] m"
  using assms
  by (auto simp: Let_def runChild_success andThen_def split: option.splits)

lemma executeMultiClientJob_prefix:
  assumes "executeMultiClientJob t job (x # post) m = executeMultiClientJob t job [x] m"
  shows "executeMultiClientJob t job (pre @ x # post) m = executeMultiClientJob t job (pre @ [x]) m"
proof (induction pre)
  case Nil
  show ?case using assms by simp
next
  case (Cons y pre)
  obtain client env where y: "y = (client, env)" by (cases y)
  show ?case
    by (simp add: y Cons.IH Let_def)
qed

text \<open>
  Claim C1. Take a multi-job with \<^verbatim>\<open>Concurrent = false\<close> and \<^verbatim>\<open>AbortOnErr = true\<close>
  and a target whose child fails: no job id could be generated, or the request to the
  client returned an error, or (outside test mode, where the loop waits) the job received
  on the done-channel has status \<^verbatim>\<open>failed\<close>. Then the targets listed after it have no
  effect: the run is the run on the list cut after that target, its events are the events
  of the children of some first \<open>k\<close> targets with \<open>k\<close> at most the position of the
  failing target, and it sends at most that many requests and makes at most that many
  \<^verbatim>\<open>CreateJob\<close> calls.
\<close>

theorem sequential_abort_on_error:
  assumes "\<not> Concurrent job" and "AbortOnErr job"
    and "newJobID env = None \<or> isl (sshResp env)
         \<or> (\<not> insecureForTests \<and> (\<exists>j. doneJob env = Some j \<and> Status j = JobStatusFailed))"
  shows "executeMultiClientJob insecureForTests job (pre @ (client, env) # post) m
           = executeMultiClientJob insecureForTests job (pre @ [(client, env)]) m
       \<and> (\<exists>k \<le> Suc (length pre).
            fst (executeMultiClientJob insecureForTests job (pre @ (client, env) # post) m)
              = concat (map (\<lambda>(client, env). fst (runChild job m client env))
                         (take k (pre @ [(client, env)]))))
       \<and> length (filter is_SendRunCmd
            (fst (executeMultiClientJob insecureForTests job (pre @ (client, env) # post) m)))
           \<le> Suc (length pre)
       \<and> length (filter is_CreateJobCall
            (fst (executeMultiClientJob insecureForTests job (pre @ (client, env) # post) m)))
           \<le> Suc (length pre)"
proof -
  have e: "executeMultiClientJob insecureForTests job (pre @ (client, env) # post) m
           = executeMultiClientJob insecureForTests job (pre @ [(client, env)]) m"
    by (intro executeMultiClientJob_prefix executeMultiClientJob_stop assms)
  show ?thesis
    using executeMultiClientJob_counts [of insecureForTests job "pre @ [(client, env)]" m]
      executeMultiClientJob_children [of "pre @ [(client, env)]" insecureForTests job m]
    by (simp add: e)
qed


text \<open>
  The theorem at targets \<open>A\<close>, \<open>B\<close>, \<open>C\<close> where the result of the child at \<open>A\<close>
  comes back failed: only \<open>A\<close> is sent a request, only the job of \<open>A\<close> is persisted.
\<close>

theorem sequential_abort_on_error_witness:
  "map sentTo (filter is_SendRunCmd (fst (executeMultiClientJob False
        \<lparr>mJID = ''mj'', mStartedAt = 0, mCreatedBy = ''admin'', mClientIDs = [''A'', ''B'', ''C''],
          mGroupIDs = [], mCommand = ''ls'', mInterpreter = [], mCwd = [], mIsSudo = False,
          mIsScript = False, mHasShebang = False, mTimeoutSec = 60, Concurrent = False,
          AbortOnErr = True\<rparr>
        [(\<lparr>ID = ''A'', Name = ''A'', DisconnectedAt = None\<rparr>,
           \<lparr>newJobID = Some ''j1'', startNow = 1, sshResp = Inr (100, 2), failNow = 3, createJobFails = False, doneJob = Some \<lparr>JID = ''j1'', Status = JobStatusFailed, FinishedAt = Some 9, StartedAt = 2, ClientID = ''A'', ClientName = ''A'', Command = ''ls'', Cwd = [], IsSudo = False, IsScript = False, Interpreter = [], CreatedBy = ''admin'', TimeoutSec = 60, MultiJobID = Some ''mj'', HasShebang = False, PID = Some 100, Error = [], Result = None\<rparr>\<rparr>),
          (\<lparr>ID = ''B'', Name = ''B'', DisconnectedAt = None\<rparr>,
           \<lparr>newJobID = Some ''j2'', startNow = 1, sshResp = Inr (100, 2), failNow = 3, createJobFails = False, doneJob = Some \<lparr>JID = ''j2'', Status = JobStatusSuccessful, FinishedAt = Some 9, StartedAt = 2, ClientID = ''B'', ClientName = ''B'', Command = ''ls'', Cwd = [], IsSudo = False, IsScript = False, Interpreter = [], CreatedBy = ''admin'', TimeoutSec = 60, MultiJobID = Some ''mj'', HasShebang = False, PID = Some 100, Error = [], Result = None\<rparr>\<rparr>),
          (\<lparr>ID = ''C'', Name = ''C'', DisconnectedAt = None\<rparr>,
           \<lparr>newJobID = Some ''j3'', startNow = 1, sshResp = Inr (100, 2), failNow = 3, createJobFails = False, doneJob = Some \<lparr>JID = ''j3'', Status = JobStatusSuccessful, FinishedAt = Some 9, StartedAt = 2, ClientID = ''C'', ClientName = ''C'', Command = ''ls'', Cwd = [], IsSudo = False, IsScript = False, Interpreter = [], CreatedBy = ''admin'', TimeoutSec = 60, MultiJobID = Some ''mj'', HasShebang = False, PID = Some 100, Error = [], Result = None\<rparr>\<rparr>)]
        Map.empty))) = [''A'']
   \<and> map (ClientID \<circ> createdJob) (filter is_CreateJobCall (fst (executeMultiClientJob False
        \<lparr>mJID = ''mj'', mStartedAt = 0, mCreatedBy = ''admin'', mClientIDs = [''A'', ''B'', ''C''],
          mGroupIDs = [], mCommand = ''ls'', mInterpreter = [], mCwd = [], mIsSudo = False,
          mIsScript = False, mHasShebang = False, mTimeoutSec = 60, Concurrent = False,
          AbortOnErr = True\<rparr>
        [(\<lparr>ID = ''A'', Name = ''A'', DisconnectedAt = None\<rparr>,
           \<lparr>newJobID = Some ''j1'', startNow = 1, sshResp = Inr (100, 2), failNow = 3, createJobFails = False, doneJob = Some \<lparr>JID = ''j1'', Status = JobStatusFailed, FinishedAt = Some 9, StartedAt = 2, ClientID = ''A'', ClientName = ''A'', Command = ''ls'', Cwd = [], IsSudo = False, IsScript = False, Interpreter = [], CreatedBy = ''admin'', TimeoutSec = 60, MultiJobID = Some ''mj'', HasShebang = False, PID = Some 100, Error = [], Result = None\<rparr>\<rparr>),
          (\<lparr>ID = ''B'', Name = ''B'', DisconnectedAt = None\<rparr>,
           \<lparr>newJobID = Some ''j2'', startNow = 1, sshResp = Inr (100, 2), failNow = 3, createJobFails = False, doneJob = Some \<lparr>JID = ''j2'', Status = JobStatusSuccessful, FinishedAt = Some 9, StartedAt = 2, ClientID = ''B'', ClientName = ''B'', Command = ''ls'', Cwd = [], IsSudo = False, IsScript = False, Interpreter = [], CreatedBy = ''admin'', TimeoutSec = 60, MultiJobID = Some ''mj'', HasShebang = False, PID = Some 100, Error = [], Result = None\<rparr>\<rparr>),
          (\<lparr>ID = ''C'', Name = ''C'', DisconnectedAt = None\<rparr>,
           \<lparr>newJobID = Some ''j3'', startNow = 1, sshResp = Inr (100, 2), failNow = 3, createJobFails = False, doneJob = Some \<lparr>JID = ''j3'', Status = JobStatusSuccessful, FinishedAt = Some 9, StartedAt = 2, ClientID = ''C'', ClientName = ''C'', Command = ''ls'', Cwd = [], IsSudo = False, IsScript = False, Interpreter = [], CreatedBy = ''admin'', TimeoutSec = 60, MultiJobID = Some ''mj'', HasShebang = False, PID = Some 100, Error = [], Result = None\<rparr>\<rparr>)]
        Map.empty))) = [''A'']"
proof -
  let ?job = "\<lparr>mJID = ''mj'', mStartedAt = 0, mCreatedBy = ''admin'', mClientIDs = [''A'', ''B'', ''C''],
          mGroupIDs = [], mCommand = ''ls'', mInterpreter = [], mCwd = [], mIsSudo = False,
          mIsScript = False, mHasShebang = False, mTimeoutSec = 60, Concurrent = False,
          AbortOnErr = True\<rparr>"
  let ?envA = "\<lparr>newJobID = Some ''j1'', startNow = 1, sshResp = Inr (100, 2), failNow = 3, createJobFails = False, doneJob = Some \<lparr>JID = ''j1'', Status = JobStatusFailed, FinishedAt = Some 9, StartedAt = 2, ClientID = ''A'', ClientName = ''A'', Command = ''ls'', Cwd = [], IsSudo = False, IsScript = False, Interpreter = [], CreatedBy = ''admin'', TimeoutSec = 60, MultiJobID = Some ''mj'', HasShebang = False, PID = Some 100, Error = [], Result = None\<rparr>\<rparr>"
  let ?post = "[(\<lparr>ID = ''B'', Name = ''B'', DisconnectedAt = None\<rparr>,
           \<lparr>newJobID = Some ''j2'', startNow = 1, sshResp = Inr (100, 2), failNow = 3, createJobFails = False, doneJob = Some \<lparr>JID = ''j2'', Status = JobStatusSuccessful, FinishedAt = Some 9, StartedAt = 2, ClientID = ''B'', ClientName = ''B'', Command = ''ls'', Cwd = [], IsSudo = False, IsScript = False, Interpreter = [], CreatedBy = ''admin'', TimeoutSec = 60, MultiJobID = Some ''mj'', HasShebang = False, PID = Some 100, Error = [], Result = None\<rparr>\<rparr>),
          (\<lparr>ID = ''C'', Name = ''C'', DisconnectedAt = None\<rparr>,
           \<lparr>newJobID = Some ''j3'', startNow = 1, sshResp = Inr (100, 2), failNow = 3, createJobFails = False, doneJob = Some \<lparr>JID = ''j3'', Status = JobStatusSuccessful, FinishedAt = Some 9, StartedAt = 2, ClientID = ''C'', ClientName = ''C'', Command = ''ls'', Cwd = [], IsSudo = False, IsScript = False, Interpreter = [], CreatedBy = ''admin'', TimeoutSec = 60, MultiJobID = Some ''mj'', HasShebang = False, PID = Some 100, Error = [], Result = None\<rparr>\<rparr>)]"
  have h1: "\<not> Concurrent ?job" and h2: "AbortOnErr ?job" by simp_all
  have h3: "newJobID ?envA = None \<or> isl (sshResp ?envA)
         \<or> (\<not> False \<and> (\<exists>j. doneJob ?envA = Some j \<and> Status j = JobStatusFailed))"
    by simp
  have one: "fst (executeMultiClientJob False ?job ([] @ [(\<lparr>ID = ''A'', Name = ''A'', DisconnectedAt = None\<rparr>, ?envA)]) Map.empty)
      = fst (runChild ?job Map.empty \<lparr>ID = ''A'', Name = ''A'', DisconnectedAt = None\<rparr> ?envA)"
    by (simp add: Let_def)
  show ?thesis
    using sequential_abort_on_error [OF h1 h2 h3, of "[]" "\<lparr>ID = ''A'', Name = ''A'', DisconnectedAt = None\<rparr>" ?post Map.empty]
    by (simp add: one runChild_def createAndRunJob_def Let_def)
qed

subsection \<open>Target resolution\<close>

lemma fetchGroups_ok:
  assumes "\<forall>g \<in> set groupIDs. getGroup g = Inr (Some (gr g))"
  shows "fetchGroups getGroup groupIDs groups = Inr (groups @ map gr groupIDs)"
  using assms by (induction groupIDs arbitrary: groups) simp_all

lemma fetchGroups_fail:
  assumes "\<forall>g \<in> set pre. getGroup g = Inr (Some (gr g))"
  shows "fetchGroups getGroup (pre @ g # post) groups =
     (case getGroup g of
        Inl err \<Rightarrow> Inl (APIError (FailedToGetGroup g) StatusInternalServerError)
      | Inr None \<Rightarrow> Inl (APIError (UnknownGroup g) StatusBadRequest)
      | Inr (Some grp) \<Rightarrow> fetchGroups getGroup post (groups @ map gr pre @ [grp]))"
  using assms by (induction pre arbitrary: groups) (simp_all split: sum.splits option.splits)

lemma addClientIDs_ok:
  assumes "\<forall>c \<in> set clientIDs. getByID c = Inr (Some (cl c)) \<and> DisconnectedAt (cl c) = None"
  shows "addClientIDs getByID clientIDs ordered used =
         (ordered @ map cl clientIDs, (\<lambda>i. used i \<or> i \<in> set clientIDs), None)"
  using assms
proof (induction clientIDs arbitrary: ordered used)
  case Nil
  show ?case by simp
next
  case (Cons c cs)
  have "(\<lambda>i. (used(c := True)) i \<or> i \<in> set cs) = (\<lambda>i. used i \<or> i \<in> set (c # cs))"
    by auto
  with Cons show ?case by simp
qed

lemma addClientIDs_fail:
  assumes "\<forall>c \<in> set pre. getByID c = Inr (Some (cl c)) \<and> DisconnectedAt (cl c) = None"
    and "getByID c = Inl e \<or> getByID c = Inr None
         \<or> (\<exists>client. getByID c = Inr (Some client) \<and> DisconnectedAt client \<noteq> None)"
  shows "snd (snd (addClientIDs getByID (pre @ c # post) ordered used)) =
     Some (case getByID c of
        Inl err \<Rightarrow> APIError (FailedToFindClient c) StatusInternalServerError
      | Inr None \<Rightarrow> APIError (ClientNotFound c) StatusNotFound
      | Inr (Some client) \<Rightarrow> APIError (ClientNotActive c) StatusBadRequest)"
  using assms
  by (induction pre arbitrary: ordered used) (auto split: sum.splits option.splits)

lemma appendGroupClients_char:
  "\<exists>rest. appendGroupClients groupClients ordered used = ordered @ rest
        \<and> subseq rest groupClients
        \<and> distinct (map ID rest)
        \<and> set (map ID rest) = ID ` set groupClients - {i. used i}"
proof (induction groupClients arbitrary: ordered used)
  case Nil
  show ?case by simp
next
  case (Cons gc gcs)
  show ?case
  proof (cases "used (ID gc)")
    case True
    from Cons.IH [of ordered used] obtain rest where
      r: "appendGroupClients gcs ordered used = ordered @ rest" "subseq rest gcs"
         "distinct (map ID rest)" "set (map ID rest) = ID ` set gcs - {i. used i}"
      by blast
    have "set (map ID rest) = ID ` set (gc # gcs) - {i. used i}"
      using r(4) True by auto
    with r True show ?thesis by auto
  next
    case False
    from Cons.IH [of "ordered @ [gc]" "used(ID gc := True)"] obtain rest where
      r: "appendGroupClients gcs (ordered @ [gc]) (used(ID gc := True)) = (ordered @ [gc]) @ rest"
         "subseq rest gcs" "distinct (map ID rest)"
         "set (map ID rest) = ID ` set gcs - {i. (used(ID gc := True)) i}"
      by blast
    have n: "ID gc \<notin> set (map ID rest)" unfolding r(4) by simp
    have s: "set (map ID (gc # rest)) = ID ` set (gc # gcs) - {i. used i}"
      using r(4) False by auto
    have "appendGroupClients (gc # gcs) ordered used = ordered @ (gc # rest)"
      using r(1) False by simp
    moreover have "subseq (gc # rest) (gc # gcs)" using r(2) by simp
    moreover have "distinct (map ID (gc # rest))" using r(3) n by simp
    ultimately show ?thesis using s by blast
  qed
qed

lemma appendGroupClients_exact:
  "appendGroupClients groupClients ordered used =
     ordered @ map (\<lambda>i. groupClients ! i)
       (filter (\<lambda>i. \<not> used (ID (groupClients ! i))
                    \<and> ID (groupClients ! i) \<notin> ID ` set (take i groupClients))
               [0 ..< length groupClients])"
proof (induction groupClients arbitrary: ordered used)
  case Nil
  show ?case by simp
next
  case (Cons gc gcs)
  let ?used' = "used(ID gc := True)"
  let ?P = "\<lambda>i. \<not> used (ID ((gc # gcs) ! i)) \<and> ID ((gc # gcs) ! i) \<notin> ID ` set (take i (gc # gcs))"
  define later where "later = filter ?P (map Suc [0 ..< length gcs])"
  define kept where "kept = map (\<lambda>i. gcs ! i)
       (filter (\<lambda>i. \<not> ?used' (ID (gcs ! i)) \<and> ID (gcs ! i) \<notin> ID ` set (take i gcs))
               [0 ..< length gcs])"
  have idx: "[0 ..< length (gc # gcs)] = 0 # map Suc [0 ..< length gcs]"
    by (simp add: upt_conv_Cons map_Suc_upt del: upt_Suc)
  have all: "filter ?P [0 ..< length (gc # gcs)] = (if \<not> used (ID gc) then 0 # later else later)"
    unfolding idx later_def by simp
  have "later = map Suc (filter (\<lambda>i. \<not> ?used' (ID (gcs ! i)) \<and> ID (gcs ! i) \<notin> ID ` set (take i gcs))
               [0 ..< length gcs])"
    unfolding later_def filter_map by (rule arg_cong [where f = "map Suc"], rule filter_cong) auto
  then have shift: "map (\<lambda>i. (gc # gcs) ! i) later = kept"
    by (simp add: kept_def comp_def del: upt_Suc)
  have ih: "appendGroupClients gcs ord ?used' = ord @ kept" for ord
    unfolding kept_def by (rule Cons.IH)
  show ?case
  proof (cases "used (ID gc)")
    case True
    then have same: "?used' = used" by (intro ext) simp
    have "appendGroupClients (gc # gcs) ordered used = appendGroupClients gcs ordered ?used'"
      using True by (simp add: same)
    also have "\<dots> = ordered @ kept" by (rule ih)
    also have "kept = map (\<lambda>i. (gc # gcs) ! i) (filter ?P [0 ..< length (gc # gcs)])"
      unfolding all using True by (simp only: shift if_False not_not if_True simp_thms)
    finally show ?thesis .
  next
    case False
    have "appendGroupClients (gc # gcs) ordered used = appendGroupClients gcs (ordered @ [gc]) ?used'"
      using False by simp
    also have "\<dots> = (ordered @ [gc]) @ kept" by (rule ih)
    also have "(ordered @ [gc]) @ kept = ordered @ map (\<lambda>i. (gc # gcs) ! i) (filter ?P [0 ..< length (gc # gcs)])"
      unfolding all using False by (simp add: shift)
    finally show ?thesis .
  qed
qed

lemma fetchGroups_Inr_found:
  "fetchGroups getGroup groupIDs groups = Inr gs \<Longrightarrow>
   \<forall>g \<in> set groupIDs. \<exists>grp. getGroup g = Inr (Some grp)"
  by (induction groupIDs arbitrary: groups) (auto split: sum.splits option.splits)

lemma addClientIDs_None_found:
  "snd (snd (addClientIDs getByID clientIDs ordered used)) = None \<Longrightarrow>
   \<forall>c \<in> set clientIDs. \<exists>client. getByID c = Inr (Some client) \<and> DisconnectedAt client = None"
  by (induction clientIDs arbitrary: ordered used) (auto split: sum.splits option.splits if_splits)

lemma getOrderedClients_err_groups:
  assumes "fetchGroups getGroup groupIDs [] = Inl err"
  shows "getOrderedClients getGroup getByID getActive clientIDs groupIDs = ([], 0, Some err)"
  using assms by (simp add: getOrderedClients_def)

lemma getOrderedClients_err_clients:
  assumes "fetchGroups getGroup groupIDs [] = Inr gs"
  shows "snd (snd (getOrderedClients getGroup getByID getActive clientIDs groupIDs)) =
         snd (snd (addClientIDs getByID clientIDs [] (\<lambda>_. False)))"
  using assms
  by (cases "addClientIDs getByID clientIDs [] (\<lambda>_. False)")
     (auto simp: getOrderedClients_def Let_def split: option.splits)

text \<open>
  Claim C2, as amended. Groups are fetched first, in order, then the explicit client ids,
  in order, and the first failing check gives the error: an unknown group is a
  bad-request, an unknown client id a not-found, a disconnected client a bad-request; any
  unknown group, unknown client id or disconnected explicit client makes the call return an
  error. When every group and every explicit client is found and the clients are
  connected, the result is the explicit clients in request order, exactly as listed,
  followed by group clients in the order \<^verbatim>\<open>GetActiveByGroups\<close> gave them: exactly the
  entries of that list, taken by position, whose id is not an explicit client id and does
  not occur at an earlier position of the list, so that of several group clients with one
  id the first is kept and every later one is left out. These group clients are
  therefore a subsequence of that list with pairwise different ids, and their ids are
  those of the group clients that are not explicit client ids. The count returned is the
  number of group clients found.
\<close>

theorem get_ordered_clients:
  "((\<forall>x \<in> set gpre. getGroup x = Inr (Some (gr x))) \<and> getGroup g = Inr None \<longrightarrow>
      snd (snd (getOrderedClients getGroup getByID getActive clientIDs (gpre @ g # gpost)))
        = Some (APIError (UnknownGroup g) StatusBadRequest))
   \<and> ((\<forall>x \<in> set groupIDs. getGroup x = Inr (Some (gr x)))
        \<and> (\<forall>x \<in> set cpre. getByID x = Inr (Some (cl x)) \<and> DisconnectedAt (cl x) = None)
        \<and> getByID c = Inr None \<longrightarrow>
      snd (snd (getOrderedClients getGroup getByID getActive (cpre @ c # cpost) groupIDs))
        = Some (APIError (ClientNotFound c) StatusNotFound))
   \<and> ((\<forall>x \<in> set groupIDs. getGroup x = Inr (Some (gr x)))
        \<and> (\<forall>x \<in> set cpre. getByID x = Inr (Some (cl x)) \<and> DisconnectedAt (cl x) = None)
        \<and> getByID c = Inr (Some client) \<and> DisconnectedAt client \<noteq> None \<longrightarrow>
      snd (snd (getOrderedClients getGroup getByID getActive (cpre @ c # cpost) groupIDs))
        = Some (APIError (ClientNotActive c) StatusBadRequest))
   \<and> ((\<exists>x \<in> set groupIDs. getGroup x = Inr None)
        \<or> (\<exists>x \<in> set clientIDs. getByID x = Inr None
              \<or> (\<exists>client. getByID x = Inr (Some client) \<and> DisconnectedAt client \<noteq> None)) \<longrightarrow>
      snd (snd (getOrderedClients getGroup getByID getActive clientIDs groupIDs)) \<noteq> None)
   \<and> ((\<forall>x \<in> set groupIDs. getGroup x = Inr (Some (gr x)))
        \<and> (\<forall>x \<in> set clientIDs. getByID x = Inr (Some (cl x)) \<and> DisconnectedAt (cl x) = None) \<longrightarrow>
      (\<exists>rest.
         getOrderedClients getGroup getByID getActive clientIDs groupIDs
           = (map cl clientIDs @ rest, length (getActive (map gr groupIDs)), None)
       \<and> rest = map (\<lambda>i. getActive (map gr groupIDs) ! i)
            (filter (\<lambda>i. ID (getActive (map gr groupIDs) ! i) \<notin> set clientIDs
                         \<and> ID (getActive (map gr groupIDs) ! i)
                             \<notin> ID ` set (take i (getActive (map gr groupIDs))))
                    [0 ..< length (getActive (map gr groupIDs))])
       \<and> subseq rest (getActive (map gr groupIDs))
       \<and> distinct (map ID rest)
       \<and> set (map ID rest) = ID ` set (getActive (map gr groupIDs)) - set clientIDs))"
proof (intro conjI impI)
  assume a: "(\<forall>x \<in> set gpre. getGroup x = Inr (Some (gr x))) \<and> getGroup g = Inr None"
  then have "fetchGroups getGroup (gpre @ g # gpost) [] = Inl (APIError (UnknownGroup g) StatusBadRequest)"
    using fetchGroups_fail [of gpre getGroup gr g gpost "[]"] by simp
  then show "snd (snd (getOrderedClients getGroup getByID getActive clientIDs (gpre @ g # gpost)))
        = Some (APIError (UnknownGroup g) StatusBadRequest)"
    by (simp add: getOrderedClients_err_groups)
next
  assume a: "(\<forall>x \<in> set groupIDs. getGroup x = Inr (Some (gr x)))
        \<and> (\<forall>x \<in> set cpre. getByID x = Inr (Some (cl x)) \<and> DisconnectedAt (cl x) = None)
        \<and> getByID c = Inr None"
  then have g: "fetchGroups getGroup groupIDs [] = Inr ([] @ map gr groupIDs)"
    by (intro fetchGroups_ok) simp
  show "snd (snd (getOrderedClients getGroup getByID getActive (cpre @ c # cpost) groupIDs))
        = Some (APIError (ClientNotFound c) StatusNotFound)"
    using a addClientIDs_fail [of cpre getByID cl c undefined cpost "[]" "\<lambda>_. False"]
    by (simp add: getOrderedClients_err_clients [OF g])
next
  assume a: "(\<forall>x \<in> set groupIDs. getGroup x = Inr (Some (gr x)))
        \<and> (\<forall>x \<in> set cpre. getByID x = Inr (Some (cl x)) \<and> DisconnectedAt (cl x) = None)
        \<and> getByID c = Inr (Some client) \<and> DisconnectedAt client \<noteq> None"
  then have g: "fetchGroups getGroup groupIDs [] = Inr ([] @ map gr groupIDs)"
    by (intro fetchGroups_ok) simp
  show "snd (snd (getOrderedClients getGroup getByID getActive (cpre @ c # cpost) groupIDs))
        = Some (APIError (ClientNotActive c) StatusBadRequest)"
    using a addClientIDs_fail [of cpre getByID cl c undefined cpost "[]" "\<lambda>_. False"]
    by (simp add: getOrderedClients_err_clients [OF g])
next
  assume a: "(\<exists>x \<in> set groupIDs. getGroup x = Inr None)
        \<or> (\<exists>x \<in> set clientIDs. getByID x = Inr None
              \<or> (\<exists>client. getByID x = Inr (Some client) \<and> DisconnectedAt client \<noteq> None))"
  show "snd (snd (getOrderedClients getGroup getByID getActive clientIDs groupIDs)) \<noteq> None"
  proof (cases "fetchGroups getGroup groupIDs []")
    case (Inl err)
    then show ?thesis by (simp add: getOrderedClients_err_groups)
  next
    case (Inr gs)
    from fetchGroups_Inr_found [OF Inr] a
    have b: "\<exists>x \<in> set clientIDs. getByID x = Inr None
              \<or> (\<exists>client. getByID x = Inr (Some client) \<and> DisconnectedAt client \<noteq> None)"
      by fastforce
    show ?thesis
    proof
      assume "snd (snd (getOrderedClients getGroup getByID getActive clientIDs groupIDs)) = None"
      then have "snd (snd (addClientIDs getByID clientIDs [] (\<lambda>_. False))) = None"
        by (simp add: getOrderedClients_err_clients [OF Inr])
      from addClientIDs_None_found [OF this] b show False by fastforce
    qed
  qed
next
  assume a: "(\<forall>x \<in> set groupIDs. getGroup x = Inr (Some (gr x)))
        \<and> (\<forall>x \<in> set clientIDs. getByID x = Inr (Some (cl x)) \<and> DisconnectedAt (cl x) = None)"
  let ?gcs = "getActive (map gr groupIDs)"
  have g: "fetchGroups getGroup groupIDs [] = Inr (map gr groupIDs)"
    using fetchGroups_ok [of groupIDs getGroup gr "[]"] a by simp
  have c: "addClientIDs getByID clientIDs [] (\<lambda>_. False) =
           (map cl clientIDs, (\<lambda>i. i \<in> set clientIDs), None)"
    using addClientIDs_ok [of clientIDs getByID cl "[]" "\<lambda>_. False"] a by simp
  from appendGroupClients_char [of ?gcs "map cl clientIDs" "\<lambda>i. i \<in> set clientIDs"]
  obtain rest where
    r: "appendGroupClients ?gcs (map cl clientIDs) (\<lambda>i. i \<in> set clientIDs) = map cl clientIDs @ rest"
       "subseq rest ?gcs" "distinct (map ID rest)"
       "set (map ID rest) = ID ` set ?gcs - {i. i \<in> set clientIDs}"
    by blast
  have e: "rest = map (\<lambda>i. ?gcs ! i)
            (filter (\<lambda>i. ID (?gcs ! i) \<notin> set clientIDs \<and> ID (?gcs ! i) \<notin> ID ` set (take i ?gcs))
                    [0 ..< length ?gcs])"
    using r(1) appendGroupClients_exact [of ?gcs "map cl clientIDs" "\<lambda>i. i \<in> set clientIDs"]
    by simp
  have s: "set (map ID rest) = ID ` set ?gcs - set clientIDs"
    using r(4) by simp
  have o: "getOrderedClients getGroup getByID getActive clientIDs groupIDs
           = (map cl clientIDs @ rest, length ?gcs, None)"
    by (simp add: getOrderedClients_def g c r(1) Let_def)
  show "\<exists>rest.
         getOrderedClients getGroup getByID getActive clientIDs groupIDs
           = (map cl clientIDs @ rest, length ?gcs, None)
       \<and> rest = map (\<lambda>i. ?gcs ! i)
            (filter (\<lambda>i. ID (?gcs ! i) \<notin> set clientIDs \<and> ID (?gcs ! i) \<notin> ID ` set (take i ?gcs))
                    [0 ..< length ?gcs])
       \<and> subseq rest ?gcs
       \<and> distinct (map ID rest)
       \<and> set (map ID rest) = ID ` set ?gcs - set clientIDs"
    using o e r(2) r(3) s by (intro exI [of _ rest] conjI)
qed


text \<open>
  The theorem with one known group \<open>g1\<close> whose active clients are \<open>b\<close>, \<open>c\<close> and a
  second client with the id \<open>c\<close> under the name \<open>c2\<close>, connected clients \<open>a\<close> and \<open>b\<close>,
  and a disconnected client \<open>d\<close>: of the two group clients with the id \<open>c\<close> the first is
  returned.
\<close>

theorem get_ordered_clients_witness:
  "snd (snd (getOrderedClients
       (\<lambda>g. if g = ''g1'' then Inr (Some \<lparr>GroupID = ''g1''\<rparr>) else Inr None)
       (\<lambda>c. if c = ''a'' \<or> c = ''b'' then Inr (Some \<lparr>ID = c, Name = c, DisconnectedAt = None\<rparr>)
             else if c = ''d'' then Inr (Some \<lparr>ID = c, Name = c, DisconnectedAt = Some 7\<rparr>)
             else Inr None)
       (\<lambda>gs. [\<lparr>ID = ''b'', Name = ''b'', DisconnectedAt = None\<rparr>,
               \<lparr>ID = ''c'', Name = ''c'', DisconnectedAt = None\<rparr>,
               \<lparr>ID = ''c'', Name = ''c2'', DisconnectedAt = None\<rparr>])
       [''a'', ''b''] [''g1'', ''gx''])) = Some (APIError (UnknownGroup ''gx'') StatusBadRequest)
   \<and> snd (snd (getOrderedClients
       (\<lambda>g. if g = ''g1'' then Inr (Some \<lparr>GroupID = ''g1''\<rparr>) else Inr None)
       (\<lambda>c. if c = ''a'' \<or> c = ''b'' then Inr (Some \<lparr>ID = c, Name = c, DisconnectedAt = None\<rparr>)
             else if c = ''d'' then Inr (Some \<lparr>ID = c, Name = c, DisconnectedAt = Some 7\<rparr>)
             else Inr None)
       (\<lambda>gs. [\<lparr>ID = ''b'', Name = ''b'', DisconnectedAt = None\<rparr>,
               \<lparr>ID = ''c'', Name = ''c'', DisconnectedAt = None\<rparr>,
               \<lparr>ID = ''c'', Name = ''c2'', DisconnectedAt = None\<rparr>])
       [''a'', ''zz''] [''g1''])) = Some (APIError (ClientNotFound ''zz'') StatusNotFound)
   \<and> snd (snd (getOrderedClients
       (\<lambda>g. if g = ''g1'' then Inr (Some \<lparr>GroupID = ''g1''\<rparr>) else Inr None)
       (\<lambda>c. if c = ''a'' \<or> c = ''b'' then Inr (Some \<lparr>ID = c, Name = c, DisconnectedAt = None\<rparr>)
             else if c = ''d'' then Inr (Some \<lparr>ID = c, Name = c, DisconnectedAt = Some 7\<rparr>)
             else Inr None)
       (\<lambda>gs. [\<lparr>ID = ''b'', Name = ''b'', DisconnectedAt = None\<rparr>,
               \<lparr>ID = ''c'', Name = ''c'', DisconnectedAt = None\<rparr>,
               \<lparr>ID = ''c'', Name = ''c2'', DisconnectedAt = None\<rparr>])
       [''a'', ''d''] [''g1''])) = Some (APIError (ClientNotActive ''d'') StatusBadRequest)
   \<and> getOrderedClients
       (\<lambda>g. if g = ''g1'' then Inr (Some \<lparr>GroupID = ''g1''\<rparr>) else Inr None)
       (\<lambda>c. if c = ''a'' \<or> c = ''b'' then Inr (Some \<lparr>ID = c, Name = c, DisconnectedAt = None\<rparr>)
             else if c = ''d'' then Inr (Some \<lparr>ID = c, Name = c, DisconnectedAt = Some 7\<rparr>)
             else Inr None)
       (\<lambda>gs. [\<lparr>ID = ''b'', Name = ''b'', DisconnectedAt = None\<rparr>,
               \<lparr>ID = ''c'', Name = ''c'', DisconnectedAt = None\<rparr>,
               \<lparr>ID = ''c'', Name = ''c2'', DisconnectedAt = None\<rparr>])
       [''a'', ''b''] [''g1'']
     = ([\<lparr>ID = ''a'', Name = ''a'', DisconnectedAt = None\<rparr>,
         \<lparr>ID = ''b'', Name = ''b'', DisconnectedAt = None\<rparr>,
         \<lparr>ID = ''c'', Name = ''c'', DisconnectedAt = None\<rparr>], 3, None)"
proof -
  let ?gG = "\<lambda>g. if g = ''g1'' then Inr (Some \<lparr>GroupID = ''g1''\<rparr>) else (Inr None :: string + ClientGroup option)"
  let ?gC = "\<lambda>c. if c = ''a'' \<or> c = ''b'' then Inr (Some \<lparr>ID = c, Name = c, DisconnectedAt = None\<rparr>)
             else if c = ''d'' then Inr (Some \<lparr>ID = c, Name = c, DisconnectedAt = Some 7\<rparr>)
             else (Inr None :: string + Client option)"
  let ?gA = "\<lambda>gs :: ClientGroup list. [\<lparr>ID = ''b'', Name = ''b'', DisconnectedAt = None\<rparr>,
               \<lparr>ID = ''c'', Name = ''c'', DisconnectedAt = None\<rparr>,
               \<lparr>ID = ''c'', Name = ''c2'', DisconnectedAt = None\<rparr>]"
  let ?gr = "\<lambda>g :: string. \<lparr>GroupID = ''g1''\<rparr>"
  let ?cl = "\<lambda>c :: string. \<lparr>ID = c, Name = c, DisconnectedAt = None\<rparr>"
  have hg: "\<forall>x \<in> set [''g1'']. ?gG x = Inr (Some (?gr x))" by simp
  have hc1: "\<forall>x \<in> set [''a'']. ?gC x = Inr (Some (?cl x)) \<and> DisconnectedAt (?cl x) = None" by simp
  have hc2: "\<forall>x \<in> set [''a'', ''b'']. ?gC x = Inr (Some (?cl x)) \<and> DisconnectedAt (?cl x) = None" by simp
  have hx: "?gG ''gx'' = Inr None" "?gC ''zz'' = Inr None"
    "?gC ''d'' = Inr (Some \<lparr>ID = ''d'', Name = ''d'', DisconnectedAt = Some 7\<rparr>)"
    "DisconnectedAt \<lparr>ID = ''d'', Name = ''d'', DisconnectedAt = Some 7\<rparr> \<noteq> None"
    by simp_all
  note t1 = get_ordered_clients [where getGroup = ?gG and getByID = ?gC and getActive = ?gA
      and gr = ?gr and cl = ?cl and gpre = "[''g1'']" and g = "''gx''" and gpost = "[]"
      and groupIDs = "[''g1'']" and cpre = "[''a'']" and c = "''zz''" and cpost = "[]"
      and clientIDs = "[''a'', ''b'']"]
  note t2 = get_ordered_clients [where getGroup = ?gG and getByID = ?gC and getActive = ?gA
      and gr = ?gr and cl = ?cl and gpre = "[''g1'']" and g = "''gx''" and gpost = "[]"
      and groupIDs = "[''g1'']" and cpre = "[''a'']" and c = "''d''" and cpost = "[]"
      and client = "\<lparr>ID = ''d'', Name = ''d'', DisconnectedAt = Some 7\<rparr>"
      and clientIDs = "[''a'', ''b'']"]
  have a: "snd (snd (getOrderedClients ?gG ?gC ?gA [''a'', ''b''] [''g1'', ''gx'']))
           = Some (APIError (UnknownGroup ''gx'') StatusBadRequest)"
    using t1 hg hx(1) by simp
  have b: "snd (snd (getOrderedClients ?gG ?gC ?gA [''a'', ''zz''] [''g1'']))
           = Some (APIError (ClientNotFound ''zz'') StatusNotFound)"
    using t1 hg hc1 hx(2) by simp
  have c: "snd (snd (getOrderedClients ?gG ?gC ?gA [''a'', ''d''] [''g1'']))
           = Some (APIError (ClientNotActive ''d'') StatusBadRequest)"
    using t2 hg hc1 hx(3,4) by simp
  have d: "getOrderedClients ?gG ?gC ?gA [''a'', ''b''] [''g1'']
     = ([\<lparr>ID = ''a'', Name = ''a'', DisconnectedAt = None\<rparr>,
         \<lparr>ID = ''b'', Name = ''b'', DisconnectedAt = None\<rparr>,
         \<lparr>ID = ''c'', Name = ''c'', DisconnectedAt = None\<rparr>], 3, None)"
    using t1 hg hc2 by (simp add: getOrderedClients_def)
  from a b c d show ?thesis by (intro conjI)
qed

text \<open>
  The claim as stated says the result has its duplicates removed. An explicit client id
  listed twice is returned twice.
\<close>

theorem get_ordered_clients_counterexample:
  "getOrderedClients (\<lambda>g. Inr None)
       (\<lambda>c. Inr (Some \<lparr>ID = c, Name = c, DisconnectedAt = None\<rparr>)) (\<lambda>gs. [])
       [''a'', ''a''] []
     = ([\<lparr>ID = ''a'', Name = ''a'', DisconnectedAt = None\<rparr>,
         \<lparr>ID = ''a'', Name = ''a'', DisconnectedAt = None\<rparr>], 0, None)
   \<and> \<not> distinct (fst (getOrderedClients (\<lambda>g. Inr None)
       (\<lambda>c. Inr (Some \<lparr>ID = c, Name = c, DisconnectedAt = None\<rparr>)) (\<lambda>gs. [])
       [''a'', ''a''] []))"
  by (simp add: getOrderedClients_def)

subsection \<open>Job store\<close>

lemma find_SaveJob:
  "find (\<lambda>row. JID row = JID job) (fst (SaveJob rows job)) = Some job"
proof (cases "hasJID rows (JID job)")
  case True
  have "list_ex (\<lambda>row. JID row = JID job) rows \<Longrightarrow>
        find (\<lambda>row. JID row = JID job) (map (\<lambda>row. if JID row = JID job then job else row) rows) = Some job"
    by (induction rows) auto
  with True show ?thesis by (simp add: SaveJob_def hasJID_def)
next
  case False
  have "\<not> list_ex (\<lambda>row. JID row = JID job) rows \<Longrightarrow>
        find (\<lambda>row. JID row = JID job) (rows @ [job]) = Some job"
    by (induction rows) auto
  with False show ?thesis by (simp add: SaveJob_def hasJID_def)
qed

lemma find_member: "find P xs = Some x \<Longrightarrow> x \<in> set xs"
  by (induction xs) (auto split: if_splits)

lemma hasJID_SaveJob: "hasJID (fst (SaveJob rows job)) (JID job)"
proof -
  from find_SaveJob [of job rows] have "job \<in> set (fst (SaveJob rows job))"
    by (rule find_member)
  then show ?thesis by (auto simp: hasJID_def list_ex_iff)
qed

text \<open>
  Claim C3. After \<^verbatim>\<open>SaveJob\<close> of a job, \<^verbatim>\<open>CreateJob\<close> of any job with the same
  \<open>jid\<close> returns no error and leaves the store as it was, so that \<^verbatim>\<open>GetByJID\<close>
  still returns the first job; \<^verbatim>\<open>SaveJob\<close> of the second job instead returns no error
  and replaces the row, so that \<^verbatim>\<open>GetByJID\<close> returns the second job.
\<close>

theorem create_job_idempotent:
  "JID j1' = JID j1 \<longrightarrow>
     snd (CreateJob (fst (SaveJob rows j1)) j1') = None
   \<and> fst (CreateJob (fst (SaveJob rows j1)) j1') = fst (SaveJob rows j1)
   \<and> GetByJID (fst (CreateJob (fst (SaveJob rows j1)) j1')) (ClientID j1) (JID j1) = Some j1
   \<and> snd (SaveJob (fst (SaveJob rows j1)) j1') = None
   \<and> GetByJID (fst (SaveJob (fst (SaveJob rows j1)) j1')) (ClientID j1') (JID j1) = Some j1'"
proof
  assume e: "JID j1' = JID j1"
  have h: "hasJID (fst (SaveJob rows j1)) (JID j1')"
    unfolding e by (rule hasJID_SaveJob)
  have c: "CreateJob (fst (SaveJob rows j1)) j1' = (fst (SaveJob rows j1), None)"
    using h by (simp add: CreateJob_def)
  have g: "GetByJID (fst (SaveJob rows j1)) (ClientID j1) (JID j1) = Some j1"
    by (simp add: GetByJID_def find_SaveJob)
  have s: "GetByJID (fst (SaveJob (fst (SaveJob rows j1)) j1')) (ClientID j1') (JID j1) = Some j1'"
    unfolding e [symmetric] by (simp add: GetByJID_def find_SaveJob)
  show "snd (CreateJob (fst (SaveJob rows j1)) j1') = None
   \<and> fst (CreateJob (fst (SaveJob rows j1)) j1') = fst (SaveJob rows j1)
   \<and> GetByJID (fst (CreateJob (fst (SaveJob rows j1)) j1')) (ClientID j1) (JID j1) = Some j1
   \<and> snd (SaveJob (fst (SaveJob rows j1)) j1') = None
   \<and> GetByJID (fst (SaveJob (fst (SaveJob rows j1)) j1')) (ClientID j1') (JID j1) = Some j1'"
  proof (intro conjI)
    show "snd (CreateJob (fst (SaveJob rows j1)) j1') = None" by (simp add: c)
    show "fst (CreateJob (fst (SaveJob rows j1)) j1') = fst (SaveJob rows j1)" by (simp add: c)
    show "GetByJID (fst (CreateJob (fst (SaveJob rows j1)) j1')) (ClientID j1) (JID j1) = Some j1"
      unfolding c fst_conv by (rule g)
    show "snd (SaveJob (fst (SaveJob rows j1)) j1') = None" by (simp add: SaveJob_def)
    show "GetByJID (fst (SaveJob (fst (SaveJob rows j1)) j1')) (ClientID j1') (JID j1) = Some j1'"
      by (rule s)
  qed
qed

text \<open>The theorem at a job and its copy with another status, on an empty store.\<close>

theorem create_job_idempotent_witness:
  "JID (someJob\<lparr>Status := JobStatusRunning\<rparr>) = JID someJob
   \<and> someJob\<lparr>Status := JobStatusRunning\<rparr> \<noteq> someJob
   \<and> GetByJID (fst (CreateJob (fst (SaveJob [] someJob)) (someJob\<lparr>Status := JobStatusRunning\<rparr>)))
        (ClientID someJob) (JID someJob) = Some someJob
   \<and> GetByJID (fst (SaveJob (fst (SaveJob [] someJob)) (someJob\<lparr>Status := JobStatusRunning\<rparr>)))
        (ClientID someJob) (JID someJob) = Some (someJob\<lparr>Status := JobStatusRunning\<rparr>)"
proof -
  have h: "JID (someJob\<lparr>Status := JobStatusRunning\<rparr>) = JID someJob" by simp
  have d: "someJob\<lparr>Status := JobStatusRunning\<rparr> \<noteq> someJob"
  proof
    assume "someJob\<lparr>Status := JobStatusRunning\<rparr> = someJob"
    then have "Status (someJob\<lparr>Status := JobStatusRunning\<rparr>) = Status someJob" by simp
    then show False by (simp add: someJob_def)
  qed
  from create_job_idempotent [of "someJob\<lparr>Status := JobStatusRunning\<rparr>" someJob "[]"] h
  have "GetByJID (fst (CreateJob (fst (SaveJob [] someJob)) (someJob\<lparr>Status := JobStatusRunning\<rparr>)))
        (ClientID someJob) (JID someJob) = Some someJob"
    and "GetByJID (fst (SaveJob (fst (SaveJob [] someJob)) (someJob\<lparr>Status := JobStatusRunning\<rparr>)))
        (ClientID (someJob\<lparr>Status := JobStatusRunning\<rparr>)) (JID someJob)
         = Some (someJob\<lparr>Status := JobStatusRunning\<rparr>)"
    by blast+
  then show ?thesis using h d by simp
qed

subsection \<open>Job store: the children of a multi-job\<close>

lemma SaveJob_new:
  "JID job \<notin> JID ` set rows \<Longrightarrow> fst (SaveJob rows job) = rows @ [job]"
  by (auto simp: SaveJob_def hasJID_def list_ex_iff image_iff)

lemma SaveJob_all:
  "distinct (map JID jobs) \<Longrightarrow> JID ` set jobs \<inter> JID ` set rows = {} \<Longrightarrow>
   foldl (\<lambda>rows job. fst (SaveJob rows job)) rows jobs = rows @ jobs"
proof (induction jobs arbitrary: rows)
  case Nil
  show ?case by simp
next
  case (Cons job jobs)
  have n: "JID job \<notin> JID ` set rows" using Cons.prems(2) by auto
  have d: "distinct (map JID jobs)" using Cons.prems(1) by simp
  have i: "JID ` set jobs \<inter> JID ` set (rows @ [job]) = {}"
    using Cons.prems by auto
  show ?case
    using Cons.IH [OF d i] by (simp add: SaveJob_new [OF n])
qed

lemma testExpected_not_spec_order: "\<not> sorted_wrt specBefore (testExpected d)"
  by (simp add: testExpected_def specBefore_def optLess_def testJob3_def testJob4_def testJob5_def)




subsection \<open>Ban list: threshold, ban and reset\<close>

lemma of_nat_neq_bound:
  "m < unat (T :: 64 word) \<Longrightarrow> (of_nat m :: 64 word) \<noteq> T"
proof
  assume lt: "m < unat T" and eq: "(of_nat m :: 64 word) = T"
  have "unat (of_nat m :: 64 word) \<le> m"
    by (simp add: unat_of_nat)
  with eq lt show False by simp
qed

lemma AddBadAttempt_frame [simp]:
  "banDuration (AddBadAttempt l k t) = banDuration l"
  "maxBadAttempts (AddBadAttempt l k t) = maxBadAttempts l"
  by (simp_all add: AddBadAttempt_def Let_def)

lemma AddBadAttempts_frame [simp]:
  "banDuration (AddBadAttempts l k ts) = banDuration l"
  "maxBadAttempts (AddBadAttempts l k ts) = maxBadAttempts l"
  by (induction ts arbitrary: l) simp_all

lemma AddBadAttempt_below:
  assumes "visitors l k = Some \<lparr>badAttempts = of_nat m, banTime = b\<rparr>"
    and "Suc m < unat (maxBadAttempts l)"
  shows "visitors (AddBadAttempt l k t) k = Some \<lparr>badAttempts = of_nat (Suc m), banTime = b\<rparr>"
  using assms of_nat_neq_bound [of "Suc m" "maxBadAttempts l"]
  by (simp add: AddBadAttempt_def Let_def add.commute)

lemma AddBadAttempt_reach:
  assumes "visitors l k = Some \<lparr>badAttempts = of_nat m, banTime = b\<rparr>"
    and "Suc m = unat (maxBadAttempts l)"
  shows "visitors (AddBadAttempt l k t) k = Some \<lparr>badAttempts = 0, banTime = Some (t + banDuration l)\<rparr>"
proof -
  have "(of_nat (Suc m) :: 64 word) = maxBadAttempts l"
    using assms(2) by simp
  then show ?thesis using assms(1)
    by (simp add: AddBadAttempt_def Let_def add.commute)
qed

lemma AddBadAttempts_below:
  assumes "visitors l k = Some \<lparr>badAttempts = of_nat m, banTime = b\<rparr>"
    and "m + length ts < unat (maxBadAttempts l)"
  shows "visitors (AddBadAttempts l k ts) k = Some \<lparr>badAttempts = of_nat (m + length ts), banTime = b\<rparr>"
  using assms
proof (induction ts arbitrary: l m)
  case Nil
  then show ?case by simp
next
  case (Cons t ts)
  have step: "visitors (AddBadAttempt l k t) k = Some \<lparr>badAttempts = of_nat (Suc m), banTime = b\<rparr>"
    using Cons.prems by (intro AddBadAttempt_below) simp_all
  have "visitors (AddBadAttempts (AddBadAttempt l k t) k ts) k
        = Some \<lparr>badAttempts = of_nat (Suc m + length ts), banTime = b\<rparr>"
    using Cons.prems(2) by (intro Cons.IH [OF step]) simp
  then show ?case by simp
qed


lemma AddBadAttempt_clean:
  assumes "clean l k"
  shows "AddBadAttempt l k t =
         AddBadAttempt (l\<lparr>visitors := (visitors l)(k \<mapsto> \<lparr>badAttempts = 0, banTime = None\<rparr>)\<rparr>) k t"
proof (cases "visitors l k")
  case None
  then show ?thesis by (simp add: AddBadAttempt_def Let_def)
next
  case (Some v)
  then show ?thesis using assms
    by (cases v) (simp add: clean_def AddBadAttempt_def Let_def)
qed

lemma AddBadAttempts_clean_below:
  assumes "clean l k" and "length ts < unat (maxBadAttempts l)" and "ts \<noteq> []"
  shows "visitors (AddBadAttempts l k ts) k =
         Some \<lparr>badAttempts = of_nat (length ts), banTime = None\<rparr>"
proof -
  obtain t ts' where ts: "ts = t # ts'" using assms(3) by (cases ts) auto
  let ?l0 = "l\<lparr>visitors := (visitors l)(k \<mapsto> \<lparr>badAttempts = 0, banTime = None\<rparr>)\<rparr>"
  have "AddBadAttempts l k ts = AddBadAttempts ?l0 k ts"
    using AddBadAttempt_clean [OF assms(1)] by (simp add: ts)
  moreover have "visitors (AddBadAttempts ?l0 k ts) k =
         Some \<lparr>badAttempts = of_nat (0 + length ts), banTime = None\<rparr>"
    using assms(2) by (intro AddBadAttempts_below) simp_all
  ultimately show ?thesis by simp
qed

lemma AddBadAttempts_snoc:
  "AddBadAttempts l k (ts @ [t]) = AddBadAttempt (AddBadAttempts l k ts) k t"
  by (induction ts arbitrary: l) simp_all

lemma AddBadAttempts_clean_reach:
  assumes "clean l k" and "length ts = unat (maxBadAttempts l)" and "ts \<noteq> []"
  shows "visitors (AddBadAttempts l k ts) k =
         Some \<lparr>badAttempts = 0, banTime = Some (last ts + banDuration l)\<rparr>"
proof -
  obtain us t where ts: "ts = us @ [t]" using assms(3) by (cases ts rule: rev_cases) auto
  let ?l1 = "AddBadAttempts l k us"
  have len: "Suc (length us) = unat (maxBadAttempts l)" using assms(2) by (simp add: ts)
  show ?thesis
  proof (cases "us = []")
    case True
    let ?l0 = "l\<lparr>visitors := (visitors l)(k \<mapsto> \<lparr>badAttempts = 0, banTime = None\<rparr>)\<rparr>"
    have "visitors (AddBadAttempt ?l0 k t) k =
          Some \<lparr>badAttempts = 0, banTime = Some (t + banDuration ?l0)\<rparr>"
      using len True by (intro AddBadAttempt_reach [where m = 0 and b = None]) simp_all
    then show ?thesis
      using AddBadAttempt_clean [OF assms(1), of t] by (simp add: ts True)
  next
    case False
    have "visitors ?l1 k = Some \<lparr>badAttempts = of_nat (length us), banTime = None\<rparr>"
      using assms(1) len False by (intro AddBadAttempts_clean_below) simp_all
    then have "visitors (AddBadAttempt ?l1 k t) k =
          Some \<lparr>badAttempts = 0, banTime = Some (t + banDuration ?l1)\<rparr>"
      using len by (intro AddBadAttempt_reach) simp_all
    then show ?thesis by (simp add: ts AddBadAttempts_snoc)
  qed
qed

lemma IsBanned_AddSuccessAttempt: "\<not> IsBanned (AddSuccessAttempt l k) k now"
  by (cases "visitors l k") (simp_all add: IsBanned_def AddSuccessAttempt_def)

text \<open>
  Claim C5. For a key with no recorded state and threshold \<open>T = maxBadAttempts\<close>
  (read as an unsigned count; for a positive Go \<^verbatim>\<open>int\<close> this is its value):
  after fewer than \<open>T\<close> consecutive calls of \<^verbatim>\<open>AddBadAttempt\<close> the key is not
  banned, whatever the clock says; after exactly \<open>T\<close> calls the counter is back at 0
  and the key is banned at every instant before the last call's clock reading plus the ban
  duration, in particular at the reading of the last call itself when the duration is
  positive; and after \<^verbatim>\<open>AddSuccessAttempt\<close> the key is not banned, from any state.
\<close>

theorem max_bad_attempts_ban:
  assumes "clean l k"
  shows "(length ts < unat (maxBadAttempts l) \<longrightarrow> \<not> IsBanned (AddBadAttempts l k ts) k now)
       \<and> (length ts = unat (maxBadAttempts l) \<and> ts \<noteq> [] \<longrightarrow>
            (0 < banDuration l \<longrightarrow> IsBanned (AddBadAttempts l k ts) k (last ts))
          \<and> (now < last ts + banDuration l \<longrightarrow> IsBanned (AddBadAttempts l k ts) k now)
          \<and> map_option badAttempts (visitors (AddBadAttempts l k ts) k) = Some 0)
       \<and> \<not> IsBanned (AddSuccessAttempt l' k) k now"
proof (intro conjI impI)
  assume "length ts < unat (maxBadAttempts l)"
  then show "\<not> IsBanned (AddBadAttempts l k ts) k now"
    using AddBadAttempts_clean_below [OF assms, of ts] assms
    by (cases "ts = []") (auto simp: IsBanned_def clean_def split: option.splits)
next
  assume a: "length ts = unat (maxBadAttempts l) \<and> ts \<noteq> []"
  note r = AddBadAttempts_clean_reach [OF assms, of ts]
  show "map_option badAttempts (visitors (AddBadAttempts l k ts) k) = Some 0"
    using r a by simp
  { assume "0 < banDuration l"
    then show "IsBanned (AddBadAttempts l k ts) k (last ts)"
      using r a by (simp add: IsBanned_def) }
  { assume "now < last ts + banDuration l"
    then show "IsBanned (AddBadAttempts l k ts) k now"
      using r a by (simp add: IsBanned_def) }
next
  show "\<not> IsBanned (AddSuccessAttempt l' k) k now"
    by (rule IsBanned_AddSuccessAttempt)
qed

text \<open>The theorem at threshold 3 and a ban of 60 ticks: free after two attempts, banned after three.\<close>

theorem max_bad_attempts_ban_witness:
  "clean (NewMaxBadAttemptsBanList 3 60) ''10.0.0.7''
   \<and> \<not> IsBanned (AddBadAttempts (NewMaxBadAttemptsBanList 3 60) ''10.0.0.7'' [100, 101]) ''10.0.0.7'' 101
   \<and> IsBanned (AddBadAttempts (NewMaxBadAttemptsBanList 3 60) ''10.0.0.7'' [100, 101, 102]) ''10.0.0.7'' 102"
proof -
  have c: "clean (NewMaxBadAttemptsBanList 3 60) ''10.0.0.7''"
    by (simp add: clean_def NewMaxBadAttemptsBanList_def)
  have m: "unat (maxBadAttempts (NewMaxBadAttemptsBanList 3 60)) = 3"
          "banDuration (NewMaxBadAttemptsBanList 3 60) = 60"
    by (simp_all add: NewMaxBadAttemptsBanList_def)
  show ?thesis
    using c max_bad_attempts_ban [OF c, of "[100, 101]" 101]
      max_bad_attempts_ban [OF c, of "[100, 101, 102]" 102]
    by (simp add: m)
qed

subsection \<open>Tunnel ACL: parsing and checking\<close>

lemma digitChar_code: "d < 10 \<Longrightarrow> (of_char (digitChar d) :: nat) = 48 + d"
proof -
  assume "d < 10"
  then have "d \<in> {0, 1, 2, 3, 4, 5, 6, 7, 8, 9}" by auto
  then show ?thesis by (auto simp: digitChar_def)
qed

lemma isDigit_digitChar: "d < 10 \<Longrightarrow> isDigit (digitChar d)"
  by (simp add: isDigit_def digitChar_code)

lemma natToDec_digits: "\<forall>c \<in> set (natToDec n). isDigit c"
proof (induction n rule: natToDec.induct)
  case (1 n)
  show ?case
  proof (cases "n < 10")
    case True
    then show ?thesis by (subst natToDec.simps) (simp add: isDigit_digitChar)
  next
    case False
    with 1 show ?thesis by (subst natToDec.simps) (simp add: isDigit_digitChar)
  qed
qed


lemma natToDec_leading_zero: "hd (natToDec n) = CHR ''0'' \<Longrightarrow> n = 0"
proof (induction n rule: natToDec.induct)
  case (1 n)
  show ?case
  proof (cases "n < 10")
    case True
    then have "natToDec n = [digitChar n]" by (subst natToDec.simps) simp
    with "1.prems" have "of_char (digitChar n) = (48 :: nat)" by simp
    with True show ?thesis by (simp add: digitChar_code)
  next
    case False
    then have "natToDec n = natToDec (n div 10) @ [digitChar (n mod 10)]"
      by (subst natToDec.simps) simp
    with "1.prems" natToDec_nonempty [of "n div 10"] have "hd (natToDec (n div 10)) = CHR ''0''"
      by simp
    with "1.IH" False have "n div 10 = 0" by simp
    with False show ?thesis by simp
  qed
qed

lemma natToDec_zero: "natToDec 0 = ''0''"
  by (subst natToDec.simps) (simp add: digitChar_def)

lemma dtoiLoop_digit:
  "d < 10 \<Longrightarrow> acc * 10 + d < 0xFFFFFF \<Longrightarrow>
   dtoiLoop (digitChar d # rest) acc i = dtoiLoop rest (acc * 10 + d) (Suc i)"
  by (simp add: isDigit_digitChar digitChar_code Let_def)

lemma dtoiLoop_natToDec:
  "acc * 10 ^ length (natToDec n) + n < 0xFFFFFF \<Longrightarrow>
   dtoiLoop (natToDec n @ rest) acc i
     = dtoiLoop rest (acc * 10 ^ length (natToDec n) + n) (i + length (natToDec n))"
proof (induction n arbitrary: rest rule: natToDec.induct)
  case (1 n)
  show ?case
  proof (cases "n < 10")
    case True
    then have e: "natToDec n = [digitChar n]" by (subst natToDec.simps) simp
    show ?thesis using "1.prems" True by (simp add: e dtoiLoop_digit del: dtoiLoop.simps)
  next
    case False
    then have e: "natToDec n = natToDec (n div 10) @ [digitChar (n mod 10)]"
      by (subst natToDec.simps) simp
    let ?L = "length (natToDec (n div 10))"
    have bound: "(acc * 10 ^ ?L + n div 10) * 10 + n mod 10 < 0xFFFFFF"
      using "1.prems" by (simp add: e algebra_simps)
    then have b1: "acc * 10 ^ ?L + n div 10 < 0xFFFFFF" by simp
    have "dtoiLoop (natToDec n @ rest) acc i
        = dtoiLoop (natToDec (n div 10) @ (digitChar (n mod 10) # rest)) acc i"
      by (simp add: e)
    also have "\<dots> = dtoiLoop (digitChar (n mod 10) # rest) (acc * 10 ^ ?L + n div 10) (i + ?L)"
      using "1.IH" [OF False b1] .
    also have "\<dots> = dtoiLoop rest ((acc * 10 ^ ?L + n div 10) * 10 + n mod 10) (Suc (i + ?L))"
      using bound by (intro dtoiLoop_digit) simp_all
    also have "(acc * 10 ^ ?L + n div 10) * 10 + n mod 10 = acc * 10 ^ length (natToDec n) + n"
      by (simp add: e algebra_simps)
    also have "Suc (i + ?L) = i + length (natToDec n)" by (simp add: e)
    finally show ?thesis .
  qed
qed

lemma dtoi_natToDec:
  assumes "n < 0xFFFFFF" and "rest = [] \<or> \<not> isDigit (hd rest)"
  shows "dtoi (natToDec n @ rest) = (n, length (natToDec n), True)"
proof -
  have "dtoiLoop (natToDec n @ rest) 0 0 = dtoiLoop rest n (length (natToDec n))"
    using dtoiLoop_natToDec [of 0 n rest 0] assms(1) by simp
  also have "\<dots> = (n, length (natToDec n), True)"
    using assms(2) by (cases rest) auto
  finally show ?thesis
    using natToDec_nonempty [of n] by (simp add: dtoi_def)
qed

lemma isDigit_not_punct:
  "isDigit c \<Longrightarrow> c \<noteq> CHR ''.'' \<and> c \<noteq> CHR '':'' \<and> c \<noteq> CHR ''/'' \<and> c \<noteq> CHR '',''"
  by (auto simp: isDigit_def)

lemma natToDec_no_punct:
  "CHR ''.'' \<notin> set (natToDec n)" "CHR '':'' \<notin> set (natToDec n)"
  "CHR ''/'' \<notin> set (natToDec n)" "CHR '','' \<notin> set (natToDec n)"
  using natToDec_digits [of n] isDigit_not_punct by blast+

lemma field_first:
  assumes "n < 256" and "rest = [] \<or> hd rest = CHR ''.''"
  shows "parseIPv4Fields (Suc k) 0 (natToDec n @ rest) p
       = parseIPv4Fields k (Suc 0) rest (p @ [of_nat n])"
proof -
  have nd: "rest = [] \<or> \<not> isDigit (hd rest)"
    using assms(2) by (auto simp: isDigit_def)
  have d: "dtoi (natToDec n @ rest) = (n, length (natToDec n), True)"
    using assms(1) nd by (intro dtoi_natToDec) simp_all
  have lz: "\<not> (length (natToDec n) > 1 \<and> hd (natToDec n @ rest) = CHR ''0'')"
  proof
    assume a: "length (natToDec n) > 1 \<and> hd (natToDec n @ rest) = CHR ''0''"
    then have "hd (natToDec n) = CHR ''0''" using natToDec_nonempty [of n] by simp
    then have "n = 0" by (rule natToDec_leading_zero)
    with a show False by (simp add: natToDec_zero)
  qed
  show ?thesis
    using assms(1) natToDec_nonempty [of n] lz by (auto simp: d Let_def)
qed

lemma field_next:
  assumes "n < 256" and "rest = [] \<or> hd rest = CHR ''.''"
  shows "parseIPv4Fields (Suc k) (Suc i) (CHR ''.'' # natToDec n @ rest) p
       = parseIPv4Fields k (Suc (Suc i)) rest (p @ [of_nat n])"
proof -
  have nd: "rest = [] \<or> \<not> isDigit (hd rest)"
    using assms(2) by (auto simp: isDigit_def)
  have d: "dtoi (natToDec n @ rest) = (n, length (natToDec n), True)"
    using assms(1) nd by (intro dtoi_natToDec) simp_all
  have lz: "\<not> (length (natToDec n) > 1 \<and> hd (natToDec n @ rest) = CHR ''0'')"
  proof
    assume a: "length (natToDec n) > 1 \<and> hd (natToDec n @ rest) = CHR ''0''"
    then have "hd (natToDec n) = CHR ''0''" using natToDec_nonempty [of n] by simp
    then have "n = 0" by (rule natToDec_leading_zero)
    with a show False by (simp add: natToDec_zero)
  qed
  show ?thesis
    using assms(1) natToDec_nonempty [of n] lz by (auto simp: d Let_def)
qed

lemma parseIPv4_renderQuad:
  assumes "a < 256" "b < 256" "c < 256" "d < 256"
  shows "parseIPv4 (renderQuad (a, b, c, d)) = Some (IPv4 (of_nat a) (of_nat b) (of_nat c) (of_nat d))"
proof -
  have "parseIPv4Fields 4 0 (renderQuad (a, b, c, d)) []
      = parseIPv4Fields 3 1 (CHR ''.'' # natToDec b @ CHR ''.'' # natToDec c @ CHR ''.'' # natToDec d) [of_nat a]"
    using field_first [of a "CHR ''.'' # natToDec b @ CHR ''.'' # natToDec c @ CHR ''.'' # natToDec d" 3 "[]"]
      assms(1) by (simp add: renderQuad_def eval_nat_numeral)
  also have "\<dots> = parseIPv4Fields 2 2 (CHR ''.'' # natToDec c @ CHR ''.'' # natToDec d) [of_nat a, of_nat b]"
    using field_next [of b "CHR ''.'' # natToDec c @ CHR ''.'' # natToDec d" 2 0 "[of_nat a]"]
      assms(2) by (simp add: eval_nat_numeral)
  also have "\<dots> = parseIPv4Fields 1 3 (CHR ''.'' # natToDec d) [of_nat a, of_nat b, of_nat c]"
    using field_next [of c "CHR ''.'' # natToDec d" 1 1 "[of_nat a, of_nat b]"]
      assms(3) by (simp add: eval_nat_numeral)
  also have "\<dots> = parseIPv4Fields 0 4 [] [of_nat a, of_nat b, of_nat c, of_nat d]"
    using field_next [of d "[]" 0 2 "[of_nat a, of_nat b, of_nat c]"]
      assms(4) by (simp add: eval_nat_numeral)
  finally show ?thesis by (simp add: parseIPv4_def)
qed

lemma renderQuad_chars: "\<forall>ch \<in> set (renderQuad (a, b, c, d)). isDigit ch \<or> ch = CHR ''.''"
  using natToDec_digits by (auto simp: renderQuad_def)

lemma renderQuad_no_punct:
  "CHR ''/'' \<notin> set (renderQuad q)" "CHR '','' \<notin> set (renderQuad q)" "CHR '':'' \<notin> set (renderQuad q)"
proof -
  obtain a b c d where q: "q = (a, b, c, d)" by (cases q) auto
  show "CHR ''/'' \<notin> set (renderQuad q)" "CHR '','' \<notin> set (renderQuad q)" "CHR '':'' \<notin> set (renderQuad q)"
    using renderQuad_chars [of a b c d] isDigit_not_punct unfolding q by fastforce+
qed

lemma ParseIP_renderQuad:
  "ParseIP parseIPv6 (renderQuad (a, b, c, d)) = parseIPv4 (renderQuad (a, b, c, d))"
proof -
  let ?rest = "natToDec b @ ''.'' @ natToDec c @ ''.'' @ natToDec d"
  have q: "renderQuad (a, b, c, d) = natToDec a @ CHR ''.'' # ?rest"
    by (simp add: renderQuad_def)
  have "\<forall>ch \<in> set (natToDec a). ch \<noteq> CHR ''.'' \<and> ch \<noteq> CHR '':''"
    using natToDec_digits [of a] isDigit_not_punct by blast
  then have "dropWhile (\<lambda>c. c \<noteq> CHR ''.'' \<and> c \<noteq> CHR '':'') (natToDec a @ CHR ''.'' # ?rest)
      = CHR ''.'' # ?rest"
    by (simp add: dropWhile_append)
  then show ?thesis unfolding q by simp
qed

lemma length_maskBytes: "length (maskBytes l n) = l"
  by (induction l arbitrary: n) simp_all

lemma length4: "length xs = 4 \<Longrightarrow> \<exists>a b c d. xs = [a, b, c, d]"
  by (cases xs; cases "tl xs"; cases "tl (tl xs)"; cases "tl (tl (tl xs))") auto

lemma To4_IPv4: "To4 (IPv4 a b c d) = Some [a, b, c, d]"
  by (simp add: To4_def IPv4_def v4InV6Prefix_def isZeros_def)

lemma Equal_IPv4zero: "Equal (IPv4 a b c d) IPv4zero \<longleftrightarrow> a = 0 \<and> b = 0 \<and> c = 0 \<and> d = 0"
  by (auto simp: Equal_def IPv4zero_def IPv4_def)

lemma byte_of_nat_zero: "n < 256 \<Longrightarrow> (of_nat n :: 8 word) = 0 \<longleftrightarrow> n = 0"
proof -
  assume n: "n < 256"
  have "(of_nat n :: 8 word) = 0 \<longleftrightarrow> 2 ^ LENGTH(8) dvd n"
    by (rule word_of_nat_eq_0_iff)
  also have "\<dots> \<longleftrightarrow> 256 dvd n" by simp
  also have "\<dots> \<longleftrightarrow> n = 0"
    using n nat_dvd_not_less [of n 256] by auto
  finally show ?thesis .
qed

lemma Mask_IPv4:
  "length m = 4 \<Longrightarrow> Mask (IPv4 a b c d) m = map2 (\<lambda>b m. b AND m) [a, b, c, d] m"
  by (simp add: Mask_def IPv4_def v4InV6Prefix_def Let_def)

lemma ParseCIDR_render:
  assumes "a < 256" "b < 256" "c < 256" "d < 256" "p \<le> 32"
  shows "ParseCIDR parseIPv6 (renderQuad (a, b, c, d) @ ''/'' @ natToDec p)
       = Some (IPv4 (of_nat a) (of_nat b) (of_nat c) (of_nat d),
               \<lparr>IP = map2 (\<lambda>b m. b AND m) [of_nat a, of_nat b, of_nat c, of_nat d] (maskBytes 4 p),
                IPMask = maskBytes 4 p\<rparr>)"
proof -
  let ?q = "renderQuad (a, b, c, d)"
  let ?s = "?q @ CHR ''/'' # natToDec p"
  have nq: "\<forall>ch \<in> set ?q. ch \<noteq> CHR ''/''"
    using renderQuad_no_punct(1) [of "(a, b, c, d)"] by blast
  have tw: "takeWhile (\<lambda>c. c \<noteq> CHR ''/'') ?s = ?q"
    using nq by (simp add: takeWhile_append2)
  have dw: "dropWhile (\<lambda>c. c \<noteq> CHR ''/'') ?s = CHR ''/'' # natToDec p"
    using nq by (simp add: dropWhile_append)
  have v4: "parseIPv4 ?q = Some (IPv4 (of_nat a) (of_nat b) (of_nat c) (of_nat d))"
    using assms by (intro parseIPv4_renderQuad)
  have dt: "dtoi (natToDec p) = (p, length (natToDec p), True)"
    using dtoi_natToDec [of p "[]"] assms(5) by simp
  have m: "CIDRMask p 32 = maskBytes 4 p"
    using assms(5) by (simp add: CIDRMask_def)
  show ?thesis
    using assms(5)
    by (simp add: ParseCIDR_def tw dw v4 dt m Let_def Mask_IPv4 length_maskBytes)
qed



lemma parseIPNet_plain:
  assumes "a < 256" "b < 256" "c < 256" "d < 256" "(a, b, c, d) \<noteq> (0, 0, 0, 0)"
  shows "parseIPNet parseIPv6 (renderEntry ((a, b, c, d), None))
       = Inr \<lparr>IP = IPv4 (of_nat a) (of_nat b) (of_nat c) (of_nat d), IPMask = IPv4Mask 255 255 255 255\<rparr>"
proof -
  have nz: "\<not> Equal (IPv4 (of_nat a) (of_nat b) (of_nat c) (of_nat d)) IPv4zero"
    using assms by (simp add: Equal_IPv4zero byte_of_nat_zero)
  show ?thesis
    using assms(1-4) nz renderQuad_no_punct(1) [of "(a, b, c, d)"]
    by (simp add: parseIPNet_def renderEntry_def ParseIP_renderQuad parseIPv4_renderQuad To4_IPv4
        del: ParseIP.simps)
qed

lemma parseIPNet_cidr:
  assumes "a < 256" "b < 256" "c < 256" "d < 256" "(a, b, c, d) \<noteq> (0, 0, 0, 0)" "p \<le> 32"
  shows "parseIPNet parseIPv6 (renderEntry ((a, b, c, d), Some p))
       = Inr \<lparr>IP = map2 (\<lambda>b m. b AND m) [of_nat a, of_nat b, of_nat c, of_nat d] (maskBytes 4 p),
              IPMask = maskBytes 4 p\<rparr>"
proof -
  have nz: "\<not> Equal (IPv4 (of_nat a) (of_nat b) (of_nat c) (of_nat d)) IPv4zero"
    using assms by (simp add: Equal_IPv4zero byte_of_nat_zero)
  show ?thesis
    using nz ParseCIDR_render [OF assms(1-4) assms(6), of parseIPv6]
    by (simp add: parseIPNet_def renderEntry_def To4_IPv4)
qed

lemma parseIPNet_zero:
  assumes "case pfx of None \<Rightarrow> True | Some p \<Rightarrow> p \<le> 32"
  shows "parseIPNet parseIPv6 (renderEntry ((0, 0, 0, 0), pfx)) = Inl ZeroAddressNotAllowed"
proof (cases pfx)
  case None
  show ?thesis
    using renderQuad_no_punct(1) [of "(0, 0, 0, 0)"]
      parseIPv4_renderQuad [of 0 0 0 0]
    by (simp add: None parseIPNet_def renderEntry_def ParseIP_renderQuad To4_IPv4 Equal_IPv4zero
        del: ParseIP.simps)
next
  case (Some p)
  with assms have p: "p \<le> 32" by simp
  show ?thesis
    using ParseCIDR_render [of 0 0 0 0 p parseIPv6] p
    by (simp add: Some parseIPNet_def renderEntry_def To4_IPv4 Equal_IPv4zero)
qed

lemma upt4: "[0 ..< 4] = [0, 1, 2, Suc 2]"
  by (simp add: upt_rec)

lemma To4_length: "To4 x = Some y \<Longrightarrow> length y = 4"
  by (auto simp: To4_def split: if_splits)

lemma To4_None_length: "To4 x = None \<Longrightarrow> length x \<noteq> 4"
  by (auto simp: To4_def split: if_splits)

lemma Contains_bytes:
  assumes nn: "networkNumberAndMask n = ([n0, n1, n2, n3], [m0, m1, m2, m3])"
  shows "IPNetContains n x \<longleftrightarrow>
     (case To4 x of
        None \<Rightarrow> False
      | Some x4 \<Rightarrow> map2 (\<lambda>b m. b AND m) x4 [m0, m1, m2, m3]
                   = map2 (\<lambda>b m. b AND m) [n0, n1, n2, n3] [m0, m1, m2, m3])"
proof (cases "To4 x")
  case None
  then show ?thesis
    using To4_None_length [OF None] by (simp add: IPNetContains_def nn)
next
  case (Some x4)
  from To4_length [OF Some] length4 obtain x0 x1 x2 x3 where x4: "x4 = [x0, x1, x2, x3]"
    by blast
  show ?thesis
    by (auto simp: IPNetContains_def nn Some x4 upt4)
qed

lemma Contains_plain:
  "IPNetContains \<lparr>IP = IPv4 a b c d, IPMask = IPv4Mask 255 255 255 255\<rparr> x \<longleftrightarrow>
     (case To4 x of
        None \<Rightarrow> False
      | Some x4 \<Rightarrow> map2 (\<lambda>b m. b AND m) x4 (maskBytes 4 32)
                   = map2 (\<lambda>b m. b AND m) [a, b, c, d] (maskBytes 4 32))"
proof -
  have m: "maskBytes 4 32 = [255, 255, 255, 255]"
    by (simp add: eval_nat_numeral)
  have nn: "networkNumberAndMask \<lparr>IP = IPv4 a b c d, IPMask = IPv4Mask 255 255 255 255\<rparr>
      = ([a, b, c, d], [255, 255, 255, 255])"
    by (simp add: networkNumberAndMask_def To4_IPv4 IPv4Mask_def)
  show ?thesis unfolding m by (rule Contains_bytes [OF nn])
qed

lemma Contains_cidr:
  "IPNetContains \<lparr>IP = map2 (\<lambda>b m. b AND m) [a, b, c, d] (maskBytes 4 p), IPMask = maskBytes 4 p\<rparr> x \<longleftrightarrow>
     (case To4 x of
        None \<Rightarrow> False
      | Some x4 \<Rightarrow> map2 (\<lambda>b m. b AND m) x4 (maskBytes 4 p)
                   = map2 (\<lambda>b m. b AND m) [a, b, c, d] (maskBytes 4 p))"
proof -
  from length_maskBytes [of 4 p] length4 obtain m0 m1 m2 m3 where m: "maskBytes 4 p = [m0, m1, m2, m3]"
    by blast
  have nn: "networkNumberAndMask \<lparr>IP = map2 (\<lambda>b m. b AND m) [a, b, c, d] [m0, m1, m2, m3],
                                  IPMask = [m0, m1, m2, m3]\<rparr>
      = ([a AND m0, b AND m1, c AND m2, d AND m3], [m0, m1, m2, m3])"
    by (simp add: networkNumberAndMask_def To4_def)
  show ?thesis
    unfolding m Contains_bytes [OF nn]
    by (simp split: option.splits)
qed

lemma Split_no_sep: "sep \<notin> set s \<Longrightarrow> Split s sep = [s]"
  by (induction s) auto

lemma Split_append: "sep \<notin> set s \<Longrightarrow> Split (s @ sep # t) sep = s # Split t sep"
  by (induction s) auto

lemma Split_Join:
  assumes "es \<noteq> []" and "\<forall>e \<in> set es. sep \<notin> set e"
  shows "Split (Join es [sep]) sep = es"
  using assms
proof (induction es "[sep]" rule: Join.induct)
  case 1
  then show ?case by simp
next
  case (2 x)
  then show ?case by (simp add: Split_no_sep)
next
  case (3 x y ys)
  then show ?case by (simp add: Split_append)
qed

lemma parseValues_ok:
  assumes "\<forall>v \<in> set vals. parseIPNet parseIPv6 v = Inr (net v)"
  shows "parseValues parseIPv6 vals allowed = Inr (allowed @ map net vals)"
  using assms by (induction vals arbitrary: allowed) simp_all

lemma CheckAccess_nonempty:
  "nets \<noteq> [] \<Longrightarrow> CheckAccess \<lparr>AllowedIPs = nets\<rparr> x \<longleftrightarrow> (\<exists>n \<in> set nets. IPNetContains n x)"
  by (simp add: CheckAccess_def list_ex_iff)


lemma renderEntry_no_comma: "CHR '','' \<notin> set (renderEntry e)"
proof -
  obtain q pfx where e: "e = (q, pfx)" by (cases e)
  show ?thesis
    using renderQuad_no_punct(2) [of q] natToDec_no_punct(4)
    by (cases pfx) (simp_all add: e renderEntry_def)
qed

lemma renderEntry_nonempty: "renderEntry e \<noteq> []"
proof -
  obtain a b c d pfx where e: "e = ((a, b, c, d), pfx)" by (cases e) auto
  show ?thesis
    using natToDec_nonempty [of a]
    by (cases pfx) (simp_all add: e renderEntry_def renderQuad_def)
qed

lemma Join_nonempty: "es \<noteq> [] \<Longrightarrow> \<forall>e \<in> set es. e \<noteq> [] \<Longrightarrow> Join es sep \<noteq> []"
  by (induction es sep rule: Join.induct) simp_all

lemma bit_and_not_mask:
  "bit (x AND NOT (mask k)) m \<longleftrightarrow> bit x m \<and> k \<le> m" for x :: "8 word"
  using bit_imp_le_length [of x m]
  by (auto simp add: bit_and_iff bit_not_iff bit_mask_iff)

lemma drop_bit_eq_iff_div:
  "drop_bit k x = drop_bit k y \<longleftrightarrow> unat x div 2 ^ k = unat y div 2 ^ k" for x y :: "8 word"
proof -
  have "drop_bit k x = drop_bit k y \<longleftrightarrow> unat (drop_bit k x) = unat (drop_bit k y)"
    by (simp only: word_unat_eq_iff)
  also have "\<dots> \<longleftrightarrow> unat x div 2 ^ k = unat y div 2 ^ k"
    unfolding unat_drop_bit_eq by (simp only: drop_bit_eq_div)
  finally show ?thesis .
qed

lemma and_not_mask_eq_iff:
  "(x AND NOT (mask k) = y AND NOT (mask k)) \<longleftrightarrow> unat x div 2 ^ k = unat y div 2 ^ k"
  for x y :: "8 word"
proof -
  have "(x AND NOT (mask k) = y AND NOT (mask k)) \<longleftrightarrow> drop_bit k x = drop_bit k y"
  proof
    assume a: "x AND NOT (mask k) = y AND NOT (mask k)"
    show "drop_bit k x = drop_bit k y"
    proof (rule bit_eqI)
      fix n
      from a have "bit (x AND NOT (mask k)) (k + n) = bit (y AND NOT (mask k)) (k + n)" by simp
      then have "bit x (k + n) = bit y (k + n)" by (simp only: bit_and_not_mask) simp
      then show "bit (drop_bit k x) n = bit (drop_bit k y) n"
        by (simp only: bit_drop_bit_eq comp_def)
    qed
  next
    assume a: "drop_bit k x = drop_bit k y"
    show "x AND NOT (mask k) = y AND NOT (mask k)"
    proof (rule bit_eqI)
      fix n
      show "bit (x AND NOT (mask k)) n = bit (y AND NOT (mask k)) n"
      proof (cases "k \<le> n")
        case True
        from a have "bit (drop_bit k x) (n - k) = bit (drop_bit k y) (n - k)" by simp
        then have "bit x n = bit y n" using True by (simp only: bit_drop_bit_eq comp_def) simp
        then show ?thesis by (simp only: bit_and_not_mask)
      next
        case False
        then show ?thesis by (simp only: bit_and_not_mask) simp
      qed
    qed
  qed
  then show ?thesis by (simp only: drop_bit_eq_iff_div)
qed

lemma partial_mask:
  "n < 8 \<Longrightarrow> NOT (drop_bit n (0xff :: 8 word)) = NOT (mask (8 - n))"
proof -
  assume "n < 8"
  then consider "n = 0" | "n = 1" | "n = 2" | "n = 3" | "n = 4" | "n = 5" | "n = 6" | "n = 7"
    by linarith
  then show ?thesis
    by cases (simp_all add: mask_eq_exp_minus_1 drop_bit_eq_div)
qed

lemma split_hi:
  fixes a b r s M :: nat
  assumes "r < M" "s < M"
  shows "(a * M + r = b * M + s) \<longleftrightarrow> a = b \<and> r = s"
proof
  assume e: "a * M + r = b * M + s"
  have "(a * M + r) div M = a" "(b * M + s) div M = b" using assms by simp_all
  with e have "a = b" by simp
  with e show "a = b \<and> r = s" by simp
qed simp

lemma div_hi:
  fixes a X :: nat
  assumes "e \<le> n" "X < 2 ^ n"
  shows "(a * 2 ^ n + X) div 2 ^ e = a * 2 ^ (n - e) + X div 2 ^ e" "X div 2 ^ e < 2 ^ (n - e)"
proof -
  have p: "(2::nat) ^ n = 2 ^ (n - e) * 2 ^ e"
    using assms(1) by (simp add: power_add [symmetric])
  show "(a * 2 ^ n + X) div 2 ^ e = a * 2 ^ (n - e) + X div 2 ^ e"
    unfolding p by (simp add: mult.assoc [symmetric])
  show "X div 2 ^ e < 2 ^ (n - e)"
    using assms(2) unfolding p by (simp add: less_mult_imp_div_less)
qed

lemma div_lo:
  fixes a X :: nat
  assumes "X < 2 ^ n"
  shows "(a * 2 ^ n + X) div 2 ^ (n + k) = a div 2 ^ k"
proof -
  have "(a * 2 ^ n + X) div 2 ^ (n + k) = (a * 2 ^ n + X) div 2 ^ n div 2 ^ k"
    by (simp add: power_add div_mult2_eq)
  also have "(a * 2 ^ n + X) div 2 ^ n = a" using assms by simp
  finally show ?thesis .
qed

lemma addrValue_bound: "addrValue bs < 2 ^ (8 * length bs)"
proof (induction bs)
  case Nil
  show ?case by simp
next
  case (Cons b bs)
  have b: "unat b < 256" using unsigned_less [of b, where ?'a = nat] by simp
  have p: "(256::nat) ^ length bs = 2 ^ (8 * length bs)"
    by (simp add: power_mult)
  have "unat b * 2 ^ (8 * length bs) + addrValue bs < (unat b + 1) * 2 ^ (8 * length bs)"
    using Cons.IH by simp
  also have "\<dots> \<le> 256 * 2 ^ (8 * length bs)"
    using b by (intro mult_right_mono) simp_all
  finally show ?case by (simp add: p power_add)
qed

lemma maskBytes_zero: "maskBytes l 0 = replicate l 0"
  by (induction l) simp_all

lemma map2_and_zero:
  "length xs = l \<Longrightarrow> map2 (\<lambda>b m. b AND m) xs (replicate l (0 :: 8 word)) = replicate l 0"
  by (induction xs arbitrary: l) auto

lemma mask_agree:
  "length xs = l \<Longrightarrow> length ys = l \<Longrightarrow> p \<le> 8 * l \<Longrightarrow>
   (map2 (\<lambda>b m. b AND m) xs (maskBytes l p) = map2 (\<lambda>b m. b AND m) ys (maskBytes l p))
     \<longleftrightarrow> addrValue xs div 2 ^ (8 * l - p) = addrValue ys div 2 ^ (8 * l - p)"
proof (induction l arbitrary: xs ys p)
  case 0
  then show ?case by simp
next
  case (Suc l)
  from Suc.prems obtain x xs' where xs: "xs = x # xs'" "length xs' = l" by (cases xs) auto
  from Suc.prems obtain y ys' where ys: "ys = y # ys'" "length ys' = l" by (cases ys) auto
  have pw: "(256::nat) ^ l = 2 ^ (8 * l)" by (simp add: power_mult)
  have bx: "addrValue xs' < 2 ^ (8 * l)" using addrValue_bound [of xs'] xs(2) by simp
  have bz: "addrValue ys' < 2 ^ (8 * l)" using addrValue_bound [of ys'] ys(2) by simp
  show ?case
  proof (cases "8 \<le> p")
    case True
    let ?e = "8 * l - (p - 8)"
    have e: "8 * Suc l - p = ?e" "?e \<le> 8 * l" using True Suc.prems(3) by simp_all
    have p': "p - 8 \<le> 8 * l" using Suc.prems(3) by simp
    have m1: "(0xff :: 8 word) = - 1" by simp
    have ff: "x AND 0xff = x" "y AND 0xff = y"
      unfolding m1 by simp_all
    have "(map2 (\<lambda>b m. b AND m) xs (maskBytes (Suc l) p) = map2 (\<lambda>b m. b AND m) ys (maskBytes (Suc l) p))
          \<longleftrightarrow> x = y \<and> addrValue xs' div 2 ^ ?e = addrValue ys' div 2 ^ ?e"
      using True Suc.IH [OF xs(2) ys(2) p'] by (simp add: xs(1) ys(1) ff)
    also have "\<dots> \<longleftrightarrow> unat x * 2 ^ (8 * l - ?e) + addrValue xs' div 2 ^ ?e
                       = unat y * 2 ^ (8 * l - ?e) + addrValue ys' div 2 ^ ?e"
      using split_hi [OF div_hi(2) [OF e(2) bx] div_hi(2) [OF e(2) bz], of "unat x" "unat y"]
      by (simp add: word_unat_eq_iff)
    also have "\<dots> \<longleftrightarrow> addrValue xs div 2 ^ ?e = addrValue ys div 2 ^ ?e"
      by (simp only: xs(1) ys(1) addrValue.simps xs(2) ys(2) pw div_hi(1) [OF e(2) bx] div_hi(1) [OF e(2) bz])
    finally show ?thesis by (simp only: e(1))
  next
    case False
    then have k: "p < 8" by simp
    have e: "8 * Suc l - p = 8 * l + (8 - p)" using k by simp
    have "(map2 (\<lambda>b m. b AND m) xs (maskBytes (Suc l) p) = map2 (\<lambda>b m. b AND m) ys (maskBytes (Suc l) p))
          \<longleftrightarrow> x AND NOT (mask (8 - p)) = y AND NOT (mask (8 - p))"
      using False by (simp add: xs ys maskBytes_zero map2_and_zero partial_mask [OF k])
    also have "\<dots> \<longleftrightarrow> unat x div 2 ^ (8 - p) = unat y div 2 ^ (8 - p)"
      by (rule and_not_mask_eq_iff)
    also have "\<dots> \<longleftrightarrow> addrValue xs div 2 ^ (8 * l + (8 - p)) = addrValue ys div 2 ^ (8 * l + (8 - p))"
      by (simp only: xs(1) ys(1) addrValue.simps xs(2) ys(2) pw div_lo [OF bx] div_lo [OF bz])
    finally show ?thesis by (simp only: e)
  qed
qed

lemma v4_prefix_iff:
  assumes "length x = 16"
  shows "take 12 x = [0, 0, 0, 0, 0, 0, 0, 0, 0, 0, 0xff, 0xff]
         \<longleftrightarrow> isZeros (take 10 x) \<and> x ! 10 = 0xff \<and> x ! 11 = 0xff"
proof -
  from assms obtain a0 a1 a2 a3 a4 a5 a6 a7 a8 a9 a10 a11 a12 a13 a14 a15
    where x: "x = [a0, a1, a2, a3, a4, a5, a6, a7, a8, a9, a10, a11, a12, a13, a14, a15]"
    by (auto simp: length_Suc_conv eval_nat_numeral)
  show ?thesis unfolding x by (auto simp: isZeros_def)
qed

lemma ipv4Number_To4: "ipv4Number x = map_option addrValue (To4 x)"
proof (cases "length x = 16")
  case True
  show ?thesis using True v4_prefix_iff [OF True] by (simp add: ipv4Number_def To4_def)
next
  case False
  then show ?thesis by (simp add: ipv4Number_def To4_def)
qed

lemma addrValue_quad:
  assumes "a < 256" "b < 256" "c < 256" "d < 256"
  shows "addrValue [of_nat a, of_nat b, of_nat c, of_nat d] = a * 2 ^ 24 + b * 2 ^ 16 + c * 2 ^ 8 + d"
  using assms by (simp add: unat_of_nat)

lemma block_iff:
  assumes "a < 256" "b < 256" "c < 256" "d < 256" "p \<le> 32"
    and "p = (case pfx of None \<Rightarrow> 32 | Some q \<Rightarrow> q)"
  shows "(case To4 x of
            None \<Rightarrow> False
          | Some x4 \<Rightarrow> map2 (\<lambda>b m. b AND m) x4 (maskBytes 4 p)
                       = map2 (\<lambda>b m. b AND m) [of_nat a, of_nat b, of_nat c, of_nat d] (maskBytes 4 p))
         \<longleftrightarrow> inCIDR x ((a, b, c, d), pfx)"
proof (cases "To4 x")
  case None
  then show ?thesis by (simp add: inCIDR_def ipv4Number_To4)
next
  case (Some x4)
  have l: "length x4 = 4" using Some by (rule To4_length)
  have l': "length [of_nat a, of_nat b, of_nat c, of_nat d :: 8 word] = 4" by simp
  have p: "p \<le> 8 * 4" using assms(5) by simp
  have "(map2 (\<lambda>b m. b AND m) x4 (maskBytes 4 p)
          = map2 (\<lambda>b m. b AND m) [of_nat a, of_nat b, of_nat c, of_nat d] (maskBytes 4 p))
        \<longleftrightarrow> addrValue x4 div 2 ^ (8 * 4 - p)
            = addrValue [of_nat a, of_nat b, of_nat c, of_nat d] div 2 ^ (8 * 4 - p)"
    by (rule mask_agree [OF l l' p])
  also have "\<dots> \<longleftrightarrow> inCIDR x ((a, b, c, d), pfx)"
    unfolding addrValue_quad [OF assms(1-4)]
    by (simp add: inCIDR_def ipv4Number_To4 Some assms(6) Let_def)
  finally show ?thesis by (simp add: Some)
qed

lemma entry_parse_contains:
  assumes "validEntry e"
  shows "\<exists>n. parseIPNet parseIPv6 (renderEntry e) = Inr n \<and> (\<forall>x. IPNetContains n x \<longleftrightarrow> inCIDR x e)"
proof -
  obtain a b c d pfx where e: "e = ((a, b, c, d), pfx)" by (cases e) auto
  from assms have v: "a < 256" "b < 256" "c < 256" "d < 256" "(a, b, c, d) \<noteq> (0, 0, 0, 0)"
    by (simp_all add: validEntry_def e)
  show ?thesis
  proof (cases pfx)
    case None
    have "\<forall>x. IPNetContains \<lparr>IP = IPv4 (of_nat a) (of_nat b) (of_nat c) (of_nat d),
                               IPMask = IPv4Mask 255 255 255 255\<rparr> x \<longleftrightarrow> inCIDR x e"
      unfolding Contains_plain e None
      using block_iff [OF v(1-4), where p = 32 and pfx = None] by simp
    then show ?thesis
      using parseIPNet_plain [OF v, of parseIPv6] by (simp add: e None)
  next
    case (Some p)
    with assms have p: "p \<le> 32" by (simp add: validEntry_def e)
    have "\<forall>x. IPNetContains
               \<lparr>IP = map2 (\<lambda>b m. b AND m) [of_nat a, of_nat b, of_nat c, of_nat d] (maskBytes 4 p),
                IPMask = maskBytes 4 p\<rparr> x \<longleftrightarrow> inCIDR x e"
      unfolding Contains_cidr e Some
      using block_iff [OF v(1-4) p, where pfx = "Some p"] by simp
    then show ?thesis
      using parseIPNet_cidr [OF v p, of parseIPv6] by (simp add: e Some)
  qed
qed

lemma CheckAccessPtr_Some: "CheckAccessPtr (Some a) x = Inr (CheckAccess a x)"
  by (simp add: CheckAccessPtr_def)




subsection \<open>Port distributor: allocation and its frame\<close>

lemma Pop_empty: "Pop c [] = (None, [])"
  by (simp add: Pop_def)

lemma Pop_nonempty:
  "s \<noteq> [] \<Longrightarrow> Pop c s = (Some (s ! (c mod length s)), removeAll (s ! (c mod length s)) s)"
  by (simp add: Pop_def Let_def)

lemma Pop_member: "s \<noteq> [] \<Longrightarrow> s ! (c mod length s) \<in> set s"
  by simp

lemma protocols_distinct [simp]:
  "ProtocolTCP \<noteq> ProtocolUDP" "ProtocolTCP \<noteq> ProtocolTCPUDP" "ProtocolUDP \<noteq> ProtocolTCPUDP"
  "ProtocolUDP \<noteq> ProtocolTCP" "ProtocolTCPUDP \<noteq> ProtocolTCP" "ProtocolTCPUDP \<noteq> ProtocolUDP"
  by (simp_all add: ProtocolTCP_def ProtocolUDP_def ProtocolTCPUDP_def)

lemma GetRandomPort_plain:
  assumes "p \<noteq> ProtocolTCPUDP" and "GetPortsPool d p = Some pool"
  shows "GetRandomPort busy c d p =
     (if pool = [] then (Inl NoPortsAvailable, d)
      else (Inr (pool ! (c mod length pool)),
            d\<lparr>portsPools := (portsPools d)(p \<mapsto> removeAll (pool ! (c mod length pool)) pool)\<rparr>))"
  using assms
  by (simp add: GetRandomPort_def getPool_def Pop_def Let_def GetPortsPool_def
      SetPortsPool_def Remove_def)

lemma GetRandomPort_both:
  assumes "GetPortsPool d ProtocolTCP = Some t" and "GetPortsPool d ProtocolUDP = Some u"
  shows "GetRandomPort busy c d ProtocolTCPUDP =
     (let pool = Intersect t u in
      if pool = [] then (Inl NoPortsAvailable, d)
      else (Inr (pool ! (c mod length pool)),
            d\<lparr>portsPools := (portsPools d)(ProtocolTCP \<mapsto> removeAll (pool ! (c mod length pool)) t,
                                           ProtocolUDP \<mapsto> removeAll (pool ! (c mod length pool)) u)\<rparr>))"
  using assms
  by (simp add: GetRandomPort_def getPool_def Pop_def Let_def GetPortsPool_def
      SetPortsPool_def Remove_def)

lemma GetRandomPort_refresh:
  assumes "p \<noteq> ProtocolTCPUDP" and "GetPortsPool d p = None" and "busy p = Inr bp"
  shows "GetRandomPort busy c d p =
         GetRandomPort busy c (SetPortsPool d p (Difference (allowedPorts d) bp)) p"
  using assms
  by (simp add: GetRandomPort_def refresh_def GetPortsPool_def SetPortsPool_def)

lemma GetRandomPort_refresh_error:
  assumes "p \<noteq> ProtocolTCPUDP" and "GetPortsPool d p = None" and "busy p = Inl e"
  shows "GetRandomPort busy c d p = (Inl (ListBusyPortsFailed e), d)"
  using assms
  by (simp add: GetRandomPort_def refresh_def GetPortsPool_def SetPortsPool_def)


lemma GetRandomPort_two_ports:
  assumes p: "p \<noteq> ProtocolTCPUDP" and pool: "GetPortsPool d p = Some pool"
    and two: "set pool = {a, b}" and ab: "a \<noteq> b"
  shows "\<exists>x y d1 d2.
           GetRandomPort b1 c1 d p = (Inr x, d1)
         \<and> GetRandomPort b2 c2 d1 p = (Inr y, d2)
         \<and> GetRandomPort b3 c3 d2 p = (Inl NoPortsAvailable, d2)
         \<and> (x = a \<and> y = b \<or> x = b \<and> y = a)"
proof -
  define x where "x = pool ! (c1 mod length pool)"
  define pool1 where "pool1 = removeAll x pool"
  define d1 where "d1 = d\<lparr>portsPools := (portsPools d)(p \<mapsto> pool1)\<rparr>"
  define y where "y = pool1 ! (c2 mod length pool1)"
  define pool2 where "pool2 = removeAll y pool1"
  define d2 where "d2 = d1\<lparr>portsPools := (portsPools d1)(p \<mapsto> pool2)\<rparr>"
  have ne: "pool \<noteq> []" using two by auto
  have x: "x \<in> {a, b}" using Pop_member [OF ne, of c1] two by (simp add: x_def)
  have s1: "set pool1 = {a, b} - {x}" by (simp add: pool1_def two)
  have "{a, b} - {x} \<noteq> {}" using x ab by blast
  then have ne1: "pool1 \<noteq> []" unfolding s1 [symmetric] by simp
  have "y \<in> set pool1" unfolding y_def by (rule Pop_member [OF ne1])
  then have y: "y \<in> {a, b} - {x}" unfolding s1 .
  have "set pool2 = ({a, b} - {x}) - {y}" by (simp add: pool2_def s1)
  also have "\<dots> = {}" using x y by blast
  finally have s2: "set pool2 = {}" .
  have g1: "GetPortsPool d1 p = Some pool1" by (simp add: d1_def GetPortsPool_def)
  have g2: "GetPortsPool d2 p = Some pool2" by (simp add: d2_def GetPortsPool_def)
  have r1: "GetRandomPort b1 c1 d p = (Inr x, d1)"
    unfolding GetRandomPort_plain [OF p pool] x_def d1_def pool1_def using ne by simp
  have r2: "GetRandomPort b2 c2 d1 p = (Inr y, d2)"
    unfolding GetRandomPort_plain [OF p g1] y_def d2_def pool2_def using ne1 by simp
  have r3: "GetRandomPort b3 c3 d2 p = (Inl NoPortsAvailable, d2)"
    unfolding GetRandomPort_plain [OF p g2] using s2 by simp
  have "x = a \<and> y = b \<or> x = b \<and> y = a" using x y by blast
  with r1 r2 r3 show ?thesis by (intro exI [of _ x] exI [of _ y] exI [of _ d1] exI [of _ d2]) simp
qed


text \<open>
  Claim C7. With a TCP pool holding exactly the ports 45 and 46 (handed to the test
  constructor, or built by the first call from \<open>allowed = {45, 46}\<close> and no busy port),
  two successive calls of \<^verbatim>\<open>GetRandomPort("tcp")\<close> return 45 and 46 in one of the two
  orders and a third returns the no-ports error, whatever elements \<^verbatim>\<open>Pop\<close> picks.
  In general, on pools that are already filled: a plain protocol returns no-ports exactly
  when its pool is empty and otherwise returns a port of the pool, which is then removed
  from that pool; \<^verbatim>\<open>tcp+udp\<close> returns no-ports exactly when the TCP and UDP pools
  share no port and otherwise returns a port they share, which is then removed from both.
\<close>

theorem get_random_port_pool:
  "(set tcpPool = {45, 46} \<longrightarrow>
      (case GetRandomPort b1 c1 (NewPortDistributorForTests allowed tcpPool udpPool) ProtocolTCP of
         (r1, d1) \<Rightarrow>
      case GetRandomPort b2 c2 d1 ProtocolTCP of
         (r2, d2) \<Rightarrow>
      case GetRandomPort b3 c3 d2 ProtocolTCP of
         (r3, d3) \<Rightarrow>
        (r1 = Inr 45 \<and> r2 = Inr 46 \<or> r1 = Inr 46 \<and> r2 = Inr 45) \<and> r3 = Inl NoPortsAvailable))
   \<and> (set allowed = {45, 46} \<and> b1 ProtocolTCP = Inr [] \<longrightarrow>
      (case GetRandomPort b1 c1 (NewPortDistributor allowed) ProtocolTCP of
         (r1, d1) \<Rightarrow>
      case GetRandomPort b2 c2 d1 ProtocolTCP of
         (r2, d2) \<Rightarrow>
      case GetRandomPort b3 c3 d2 ProtocolTCP of
         (r3, d3) \<Rightarrow>
        (r1 = Inr 45 \<and> r2 = Inr 46 \<or> r1 = Inr 46 \<and> r2 = Inr 45) \<and> r3 = Inl NoPortsAvailable))
   \<and> (p \<noteq> ProtocolTCPUDP \<and> GetPortsPool d p = Some pool \<longrightarrow>
        (fst (GetRandomPort busy c d p) = Inl NoPortsAvailable \<longleftrightarrow> set pool = {})
      \<and> (set pool \<noteq> {} \<longrightarrow> (\<exists>port. fst (GetRandomPort busy c d p) = Inr port))
      \<and> (\<forall>port. fst (GetRandomPort busy c d p) = Inr port \<longrightarrow>
            port \<in> set pool
          \<and> portsPools (snd (GetRandomPort busy c d p)) = (portsPools d)(p \<mapsto> removeAll port pool)))
   \<and> (GetPortsPool d ProtocolTCP = Some t \<and> GetPortsPool d ProtocolUDP = Some u \<longrightarrow>
        (fst (GetRandomPort busy c d ProtocolTCPUDP) = Inl NoPortsAvailable \<longleftrightarrow> set t \<inter> set u = {})
      \<and> (set t \<inter> set u \<noteq> {} \<longrightarrow> (\<exists>port. fst (GetRandomPort busy c d ProtocolTCPUDP) = Inr port))
      \<and> (\<forall>port. fst (GetRandomPort busy c d ProtocolTCPUDP) = Inr port \<longrightarrow>
            port \<in> set t \<inter> set u
          \<and> portsPools (snd (GetRandomPort busy c d ProtocolTCPUDP)) =
              (portsPools d)(ProtocolTCP \<mapsto> removeAll port t, ProtocolUDP \<mapsto> removeAll port u)))"
proof (intro conjI impI)
  assume two: "set tcpPool = {45, 46}"
  let ?d = "NewPortDistributorForTests allowed tcpPool udpPool"
  have g: "GetPortsPool ?d ProtocolTCP = Some tcpPool"
    by (simp add: NewPortDistributorForTests_def GetPortsPool_def)
  have "(45::int) \<noteq> 46" by simp
  from GetRandomPort_two_ports [OF protocols_distinct(2) g two this, of b1 c1 b2 c2 b3 c3]
  obtain x y e1 e2 where
    "GetRandomPort b1 c1 ?d ProtocolTCP = (Inr x, e1)"
    "GetRandomPort b2 c2 e1 ProtocolTCP = (Inr y, e2)"
    "GetRandomPort b3 c3 e2 ProtocolTCP = (Inl NoPortsAvailable, e2)"
    "x = 45 \<and> y = 46 \<or> x = 46 \<and> y = 45"
    by blast
  then show "case GetRandomPort b1 c1 ?d ProtocolTCP of
         (r1, d1) \<Rightarrow>
      case GetRandomPort b2 c2 d1 ProtocolTCP of
         (r2, d2) \<Rightarrow>
      case GetRandomPort b3 c3 d2 ProtocolTCP of
         (r3, d3) \<Rightarrow>
        (r1 = Inr 45 \<and> r2 = Inr 46 \<or> r1 = Inr 46 \<and> r2 = Inr 45) \<and> r3 = Inl NoPortsAvailable"
    by simp
next
  assume a: "set allowed = {45, 46} \<and> b1 ProtocolTCP = Inr []"
  let ?d = "NewPortDistributor allowed"
  let ?d' = "SetPortsPool ?d ProtocolTCP (Difference (allowedPorts ?d) [])"
  have n: "GetPortsPool ?d ProtocolTCP = None"
    by (simp add: NewPortDistributor_def GetPortsPool_def)
  have e: "GetRandomPort b1 c1 ?d ProtocolTCP = GetRandomPort b1 c1 ?d' ProtocolTCP"
    using a by (intro GetRandomPort_refresh [OF _ n]) simp_all
  have g: "GetPortsPool ?d' ProtocolTCP = Some allowed"
    by (simp add: NewPortDistributor_def GetPortsPool_def SetPortsPool_def Difference_def)
  have "(45::int) \<noteq> 46" by simp
  from GetRandomPort_two_ports [OF protocols_distinct(2) g conjunct1 [OF a] this, of b1 c1 b2 c2 b3 c3]
  obtain x y e1 e2 where
    "GetRandomPort b1 c1 ?d' ProtocolTCP = (Inr x, e1)"
    "GetRandomPort b2 c2 e1 ProtocolTCP = (Inr y, e2)"
    "GetRandomPort b3 c3 e2 ProtocolTCP = (Inl NoPortsAvailable, e2)"
    "x = 45 \<and> y = 46 \<or> x = 46 \<and> y = 45"
    by blast
  then show "case GetRandomPort b1 c1 ?d ProtocolTCP of
         (r1, d1) \<Rightarrow>
      case GetRandomPort b2 c2 d1 ProtocolTCP of
         (r2, d2) \<Rightarrow>
      case GetRandomPort b3 c3 d2 ProtocolTCP of
         (r3, d3) \<Rightarrow>
        (r1 = Inr 45 \<and> r2 = Inr 46 \<or> r1 = Inr 46 \<and> r2 = Inr 45) \<and> r3 = Inl NoPortsAvailable"
    unfolding e by simp
next
  assume a: "p \<noteq> ProtocolTCPUDP \<and> GetPortsPool d p = Some pool"
  then have eq: "GetRandomPort busy c d p =
     (if pool = [] then (Inl NoPortsAvailable, d)
      else (Inr (pool ! (c mod length pool)),
            d\<lparr>portsPools := (portsPools d)(p \<mapsto> removeAll (pool ! (c mod length pool)) pool)\<rparr>))"
    by (intro GetRandomPort_plain) simp_all
  show "fst (GetRandomPort busy c d p) = Inl NoPortsAvailable \<longleftrightarrow> set pool = {}"
    by (simp add: eq)
  show "\<exists>port. fst (GetRandomPort busy c d p) = Inr port" if "set pool \<noteq> {}"
    using that by (simp add: eq)
  show "\<forall>port. fst (GetRandomPort busy c d p) = Inr port \<longrightarrow>
            port \<in> set pool
          \<and> portsPools (snd (GetRandomPort busy c d p)) = (portsPools d)(p \<mapsto> removeAll port pool)"
    by (auto simp: eq)
next
  assume a: "GetPortsPool d ProtocolTCP = Some t \<and> GetPortsPool d ProtocolUDP = Some u"
  note eq = GetRandomPort_both [OF conjunct1 [OF a] conjunct2 [OF a], of busy c]
  have emp: "Intersect t u = [] \<longleftrightarrow> set t \<inter> set u = {}"
    by (auto simp: Intersect_def filter_empty_conv)
  have mem: "Intersect t u \<noteq> [] \<Longrightarrow>
      Intersect t u ! (c mod length (Intersect t u)) \<in> set t \<inter> set u"
    using Pop_member [of "Intersect t u" c] by (auto simp: Intersect_def)
  show "fst (GetRandomPort busy c d ProtocolTCPUDP) = Inl NoPortsAvailable \<longleftrightarrow> set t \<inter> set u = {}"
    by (simp add: eq Let_def emp)
  show "\<exists>port. fst (GetRandomPort busy c d ProtocolTCPUDP) = Inr port" if "set t \<inter> set u \<noteq> {}"
    using that by (simp add: eq Let_def emp)
  show "\<forall>port. fst (GetRandomPort busy c d ProtocolTCPUDP) = Inr port \<longrightarrow>
            port \<in> set t \<inter> set u
          \<and> portsPools (snd (GetRandomPort busy c d ProtocolTCPUDP)) =
              (portsPools d)(ProtocolTCP \<mapsto> removeAll port t, ProtocolUDP \<mapsto> removeAll port u)"
    using mem by (auto simp: eq Let_def)
qed


text \<open>The theorem at the pools \<open>{45, 46}\<close> (TCP) and \<open>{46, 47}\<close> (UDP).\<close>

theorem get_random_port_pool_witness:
  "set [45, 46 :: int] = {45, 46}
   \<and> GetPortsPool (NewPortDistributorForTests [45, 46] [45, 46] [46, 47]) ProtocolTCP = Some [45, 46]
   \<and> GetPortsPool (NewPortDistributorForTests [45, 46] [45, 46] [46, 47]) ProtocolUDP = Some [46, 47]
   \<and> fst (GetRandomPort (\<lambda>_. Inr []) 0 (NewPortDistributorForTests [45, 46] [45, 46] [46, 47]) ProtocolTCP)
       \<noteq> Inl NoPortsAvailable
   \<and> fst (GetRandomPort (\<lambda>_. Inr []) 0 (NewPortDistributorForTests [45, 46] [45, 46] [46, 47]) ProtocolTCPUDP)
       \<noteq> Inl NoPortsAvailable
   \<and> fst (GetRandomPort (\<lambda>_. Inr []) 1 (NewPortDistributor [45, 46]) ProtocolTCP) = Inr 46"
proof -
  let ?d = "NewPortDistributorForTests [45, 46] [45, 46] [46, 47]"
  have h1: "set [45, 46 :: int] = {45, 46}" by simp
  have h2: "GetPortsPool ?d ProtocolTCP = Some [45, 46]"
    by (simp add: GetPortsPool_def NewPortDistributorForTests_def)
  have h3: "GetPortsPool ?d ProtocolUDP = Some [46, 47]"
    by (simp add: GetPortsPool_def NewPortDistributorForTests_def)
  have h4: "ProtocolTCP \<noteq> ProtocolTCPUDP"
    by (simp add: ProtocolTCP_def ProtocolTCPUDP_def)
  have v: "fst (GetRandomPort (\<lambda>_. Inr []) 1 (NewPortDistributor [45, 46]) ProtocolTCP) = Inr 46"
    by (simp add: GetRandomPort_def NewPortDistributor_def GetPortsPool_def SetPortsPool_def
        refresh_def Difference_def getPool_def Pop_def Remove_def h4)
  show ?thesis
    using get_random_port_pool [where tcpPool = "[45, 46]" and allowed = "[45, 46]"
        and ?b1.0 = "\<lambda>_. Inr []" and p = ProtocolTCP and d = ?d
        and pool = "[45, 46]" and t = "[45, 46]" and u = "[46, 47]" and busy = "\<lambda>_. Inr []"
        and c = 0]
      h1 h2 h3 h4 v
    by simp
qed

lemma refresh_frame:
  assumes "refresh busy d p = Inr d'"
  shows "allowedPorts d' = allowedPorts d" and "q \<noteq> p \<Longrightarrow> portsPools d' q = portsPools d q"
  using assms by (auto simp: refresh_def SetPortsPool_def split: sum.splits)

text \<open>
  Claim C10. A call of \<^verbatim>\<open>GetRandomPort\<close> for a plain protocol (any protocol other
  than \<^verbatim>\<open>tcp+udp\<close>) leaves the allowed ports and every other entry of the pool map
  as they were, whether it returns a port or an error and whether or not it had to fill
  the pool first; when it returns a port, the pool of that protocol no longer holds it.
  In particular a \<^verbatim>\<open>tcp\<close> call leaves the UDP pool unchanged and a \<^verbatim>\<open>udp\<close> call
  the TCP pool.
\<close>

theorem get_random_port_frame:
  "(p \<noteq> ProtocolTCPUDP \<longrightarrow>
      allowedPorts (snd (GetRandomPort busy c d p)) = allowedPorts d
    \<and> (\<forall>q. q \<noteq> p \<longrightarrow> portsPools (snd (GetRandomPort busy c d p)) q = portsPools d q)
    \<and> (\<forall>port. fst (GetRandomPort busy c d p) = Inr port \<longrightarrow>
          (\<exists>pool. portsPools (snd (GetRandomPort busy c d p)) p = Some pool \<and> port \<notin> set pool)))
   \<and> portsPools (snd (GetRandomPort busy c d ProtocolTCP)) ProtocolUDP = portsPools d ProtocolUDP
   \<and> portsPools (snd (GetRandomPort busy c d ProtocolUDP)) ProtocolTCP = portsPools d ProtocolTCP"
proof -
  have main: "allowedPorts (snd (GetRandomPort busy c d p)) = allowedPorts d
    \<and> (\<forall>q. q \<noteq> p \<longrightarrow> portsPools (snd (GetRandomPort busy c d p)) q = portsPools d q)
    \<and> (\<forall>port. fst (GetRandomPort busy c d p) = Inr port \<longrightarrow>
          (\<exists>pool. portsPools (snd (GetRandomPort busy c d p)) p = Some pool \<and> port \<notin> set pool))"
    if p: "p \<noteq> ProtocolTCPUDP" for p
  proof (cases "GetPortsPool d p")
    case (Some pool)
    show ?thesis unfolding GetRandomPort_plain [OF p Some] by simp
  next
    case None
    show ?thesis
    proof (cases "busy p")
      case (Inl e)
      show ?thesis unfolding GetRandomPort_refresh_error [where busy = busy, OF p None Inl] by simp
    next
      case (Inr bp)
      let ?d1 = "SetPortsPool d p (Difference (allowedPorts d) bp)"
      have g: "GetPortsPool ?d1 p = Some (Difference (allowedPorts d) bp)"
        by (simp add: GetPortsPool_def SetPortsPool_def)
      show ?thesis
        unfolding GetRandomPort_refresh [where busy = busy, OF p None Inr] GetRandomPort_plain [OF p g]
        by (simp add: SetPortsPool_def)
    qed
  qed
  show ?thesis
    using main [of p] main [of ProtocolTCP] main [of ProtocolUDP] by simp
qed

text \<open>The theorem at a TCP allocation from \<open>{45, 46}\<close> beside the UDP pool \<open>{46, 47}\<close>.\<close>

theorem get_random_port_frame_witness:
  "ProtocolTCP \<noteq> ProtocolTCPUDP
   \<and> fst (GetRandomPort (\<lambda>_. Inr []) 0 (NewPortDistributorForTests [45, 46] [45, 46] [46, 47]) ProtocolTCP) = Inr 45
   \<and> portsPools (snd (GetRandomPort (\<lambda>_. Inr []) 0 (NewPortDistributorForTests [45, 46] [45, 46] [46, 47]) ProtocolTCP))
        ProtocolUDP = Some [46, 47]
   \<and> allowedPorts (snd (GetRandomPort (\<lambda>_. Inr []) 0 (NewPortDistributorForTests [45, 46] [45, 46] [46, 47]) ProtocolTCP))
        = [45, 46]"
proof -
  let ?d = "NewPortDistributorForTests [45, 46] [45, 46] [46, 47]"
  have h: "ProtocolTCP \<noteq> ProtocolTCPUDP"
    by (simp add: ProtocolTCP_def ProtocolTCPUDP_def)
  have u: "ProtocolUDP \<noteq> ProtocolTCP"
    by (simp add: ProtocolTCP_def ProtocolUDP_def)
  have r: "fst (GetRandomPort (\<lambda>_. Inr []) 0 ?d ProtocolTCP) = Inr 45"
    by (simp add: GetRandomPort_def NewPortDistributorForTests_def GetPortsPool_def SetPortsPool_def
        getPool_def Pop_def Remove_def h)
  have d: "portsPools ?d ProtocolUDP = Some [46, 47]" "allowedPorts ?d = [45, 46]"
    by (simp_all add: NewPortDistributorForTests_def)
  show ?thesis
    using get_random_port_frame [where p = ProtocolTCP and busy = "\<lambda>_. Inr []" and c = 0 and d = ?d] h u r d
    by simp
qed

subsection \<open>Query translation: text and binds\<close>

lemma whereLoop_params:
  "snd (whereLoop code fos (ps, prm)) = prm @ concat (map Values fos)"
proof (induction fos arbitrary: ps prm)
  case Nil
  show ?case by simp
next
  case (Cons fo fos)
  have one: "length (Values fo) = 1 \<Longrightarrow> [Values fo ! 0] = Values fo"
    by (cases "Values fo") simp_all
  show ?case
    by (simp add: Cons.IH Let_def one)
qed

lemma whereLoop_text:
  assumes "map (\<lambda>fo. (Column fo, Operator fo, length (Values fo))) fos
         = map (\<lambda>fo. (Column fo, Operator fo, length (Values fo))) fos'"
  shows "fst (whereLoop code fos (ps, prm)) = fst (whereLoop code fos' (ps, prm'))"
  using assms
proof (induction fos arbitrary: fos' ps prm prm')
  case Nil
  then show ?case by simp
next
  case (Cons fo fos)
  then obtain fo' fos'' where f: "fos' = fo' # fos''" by (cases fos') auto
  have same: "Column fo = Column fo'" "Operator fo = Operator fo'"
    "length (Values fo) = length (Values fo')"
    using Cons.prems by (simp_all add: f)
  have rest: "map (\<lambda>fo. (Column fo, Operator fo, length (Values fo))) fos
         = map (\<lambda>fo. (Column fo, Operator fo, length (Values fo))) fos''"
    using Cons.prems by (simp add: f)
  show ?case
    using Cons.IH [OF rest] by (simp add: f same Let_def map_replicate_const)
qed

lemma Convert_params:
  "snd (ConvertListOptionsToQuery code lo q) = concat (map Values (Filters lo))"
proof (cases "Filters lo = []")
  case True
  then show ?thesis by (simp add: ConvertListOptionsToQuery_def addWhere_def)
next
  case False
  obtain ws prm where w: "whereLoop code (Filters lo) ([], []) = (ws, prm)"
    by (cases "whereLoop code (Filters lo) ([], [])")
  have "prm = concat (map Values (Filters lo))"
    using whereLoop_params [of code "Filters lo" "[]" "[]"] by (simp add: w)
  with False show ?thesis
    by (simp add: ConvertListOptionsToQuery_def addWhere_def Let_def w)
qed

lemma Convert_text:
  assumes "Sorts lo = Sorts lo'" and "Fields lo = Fields lo'"
    and "map (\<lambda>fo. (Column fo, Operator fo, length (Values fo))) (Filters lo)
       = map (\<lambda>fo. (Column fo, Operator fo, length (Values fo))) (Filters lo')"
  shows "fst (ConvertListOptionsToQuery code lo q) = fst (ConvertListOptionsToQuery code lo' q)"
proof -
  have len: "length (Filters lo) = length (Filters lo')"
    using arg_cong [OF assms(3), of length] by simp
  obtain ws prm where w: "whereLoop code (Filters lo) ([], []) = (ws, prm)"
    by (cases "whereLoop code (Filters lo) ([], [])")
  obtain ws' prm' where w': "whereLoop code (Filters lo') ([], []) = (ws', prm')"
    by (cases "whereLoop code (Filters lo') ([], [])")
  have "ws = ws'"
    using whereLoop_text [OF assms(3), of code "[]" "[]" "[]"] by (simp add: w w')
  then have "fst (addWhere code (Filters lo) q) = fst (addWhere code (Filters lo') q)"
    using len by (simp add: addWhere_def Let_def w w')
  then show ?thesis
    by (simp add: ConvertListOptionsToQuery_def assms(1,2) Let_def split_beta)
qed

text \<open>
  Claim C8. For the list options with filters \<open>field1\<close> over three values and
  \<open>field2\<close> over one, both with an operator whose code is \<^verbatim>\<open>=\<close>, sorts
  \<open>field1\<close> ascending and \<open>field2\<close> descending, and the projection of \<open>res1\<close>
  to \<open>field1\<close> and \<open>field2\<close>, the translation of \<^verbatim>\<open>SELECT * FROM res1\<close> is the
  query text of the claim (one space before \<^verbatim>\<open>ORDER BY\<close>), with the four filter
  values as binds in their order; this holds whatever the four values are, so none of them
  reaches the text. For all options: the binds are the filters' values in order, and the
  text depends on the filters only through their columns, operators and numbers of values.
\<close>

theorem convert_list_options_query:
  "(code eq = ''='' \<longrightarrow>
    ConvertListOptionsToQuery code
     \<lparr>Sorts = [\<lparr>SortColumn = ''field1'', IsASC = True\<rparr>, \<lparr>SortColumn = ''field2'', IsASC = False\<rparr>],
      Filters = [\<lparr>Column = ''field1'', Operator = eq, Values = [v1, v2, v3]\<rparr>,
                 \<lparr>Column = ''field2'', Operator = eq, Values = [v4]\<rparr>],
      Fields = [\<lparr>Resource = ''res1'', FieldNames = [''field1'', ''field2'']\<rparr>],
      Pagination = pg\<rparr> ''SELECT * FROM res1''
     = (''SELECT res1.field1, res1.field2 FROM res1 WHERE (field1 = ? OR field1 = ? OR field1 = ?) AND field2 = ? ORDER BY field1 ASC, field2 DESC'',
        [v1, v2, v3, v4]))
   \<and> snd (ConvertListOptionsToQuery code lo q) = concat (map Values (Filters lo))
   \<and> (Sorts lo = Sorts lo' \<and> Fields lo = Fields lo'
      \<and> map (\<lambda>fo. (Column fo, Operator fo, length (Values fo))) (Filters lo)
        = map (\<lambda>fo. (Column fo, Operator fo, length (Values fo))) (Filters lo')
      \<longrightarrow> fst (ConvertListOptionsToQuery code lo q) = fst (ConvertListOptionsToQuery code lo' q))"
proof (intro conjI impI)
  assume "code eq = ''=''"
  then show "ConvertListOptionsToQuery code
     \<lparr>Sorts = [\<lparr>SortColumn = ''field1'', IsASC = True\<rparr>, \<lparr>SortColumn = ''field2'', IsASC = False\<rparr>],
      Filters = [\<lparr>Column = ''field1'', Operator = eq, Values = [v1, v2, v3]\<rparr>,
                 \<lparr>Column = ''field2'', Operator = eq, Values = [v4]\<rparr>],
      Fields = [\<lparr>Resource = ''res1'', FieldNames = [''field1'', ''field2'']\<rparr>],
      Pagination = pg\<rparr> ''SELECT * FROM res1''
     = (''SELECT res1.field1, res1.field2 FROM res1 WHERE (field1 = ? OR field1 = ? OR field1 = ?) AND field2 = ? ORDER BY field1 ASC, field2 DESC'',
        [v1, v2, v3, v4])"
    by (simp add: ConvertListOptionsToQuery_def addWhere_def addOrderBy_def ReplaceStarSelect_def
        ToUpper_def ToUpperChar_def HasPrefix_def)
next
  show "snd (ConvertListOptionsToQuery code lo q) = concat (map Values (Filters lo))"
    by (rule Convert_params)
next
  assume "Sorts lo = Sorts lo' \<and> Fields lo = Fields lo'
      \<and> map (\<lambda>fo. (Column fo, Operator fo, length (Values fo))) (Filters lo)
        = map (\<lambda>fo. (Column fo, Operator fo, length (Values fo))) (Filters lo')"
  then show "fst (ConvertListOptionsToQuery code lo q) = fst (ConvertListOptionsToQuery code lo' q)"
    by (intro Convert_text) simp_all
qed

text \<open>The theorem at the values \<open>val1\<close>, \<open>val2\<close>, \<open>val3\<close> and \<open>value2\<close> of the claim.\<close>

theorem convert_list_options_query_witness:
  "(\<lambda>_::unit. ''='') () = ''=''
   \<and> ConvertListOptionsToQuery (\<lambda>_::unit. ''='')
     \<lparr>Sorts = [\<lparr>SortColumn = ''field1'', IsASC = True\<rparr>, \<lparr>SortColumn = ''field2'', IsASC = False\<rparr>],
      Filters = [\<lparr>Column = ''field1'', Operator = (), Values = [''val1'', ''val2'', ''val3'']\<rparr>,
                 \<lparr>Column = ''field2'', Operator = (), Values = [''value2'']\<rparr>],
      Fields = [\<lparr>Resource = ''res1'', FieldNames = [''field1'', ''field2'']\<rparr>],
      Pagination = None\<rparr> ''SELECT * FROM res1''
     = (''SELECT res1.field1, res1.field2 FROM res1 WHERE (field1 = ? OR field1 = ? OR field1 = ?) AND field2 = ? ORDER BY field1 ASC, field2 DESC'',
        [''val1'', ''val2'', ''val3'', ''value2''])"
proof -
  let ?lo = "\<lparr>Sorts = [], Filters = [\<lparr>Column = ''c'', Operator = (), Values = [''x'']\<rparr>],
              Fields = [], Pagination = None\<rparr>"
  let ?lo' = "\<lparr>Sorts = [], Filters = [\<lparr>Column = ''c'', Operator = (), Values = [''y'']\<rparr>],
              Fields = [], Pagination = None\<rparr>"
  have h: "(\<lambda>_::unit. ''='') () = ''=''" by simp
  have h2: "Sorts ?lo = Sorts ?lo' \<and> Fields ?lo = Fields ?lo'
      \<and> map (\<lambda>fo. (Column fo, Operator fo, length (Values fo))) (Filters ?lo)
        = map (\<lambda>fo. (Column fo, Operator fo, length (Values fo))) (Filters ?lo')"
    by simp
  show ?thesis
    using convert_list_options_query [where code = "\<lambda>_::unit. ''=''" and eq = "()"
        and ?v1.0 = "''val1''" and ?v2.0 = "''val2''" and ?v3.0 = "''val3''" and ?v4.0 = "''value2''"
        and pg = None and lo = ?lo and lo' = ?lo'] h h2
    by simp
qed

subsection \<open>Tunnel identifiers of a session\<close>

lemma digitChar_inj: "d < 10 \<Longrightarrow> e < 10 \<Longrightarrow> digitChar d = digitChar e \<Longrightarrow> d = e"
proof -
  have "distinct ''0123456789''" by simp
  moreover have "length ''0123456789'' = 10" by simp
  ultimately show "d < 10 \<Longrightarrow> e < 10 \<Longrightarrow> digitChar d = digitChar e \<Longrightarrow> d = e"
    unfolding digitChar_def by (metis nth_eq_iff_index_eq)
qed


lemma natToDec_inj: "natToDec n = natToDec m \<Longrightarrow> n = m"
proof (induction n arbitrary: m rule: natToDec.induct)
  case (1 n)
  show ?case
  proof (cases "n < 10")
    case True
    then have n: "natToDec n = [digitChar n]" by (subst natToDec.simps) simp
    show ?thesis
    proof (cases "m < 10")
      case mt: True
      then have "natToDec m = [digitChar m]" by (subst natToDec.simps) simp
      with n "1.prems" True mt show ?thesis by (auto dest: digitChar_inj)
    next
      case mf: False
      then have "natToDec m = natToDec (m div 10) @ [digitChar (m mod 10)]"
        by (subst natToDec.simps) simp
      with n "1.prems" natToDec_nonempty [of "m div 10"] show ?thesis by simp
    qed
  next
    case False
    then have n: "natToDec n = natToDec (n div 10) @ [digitChar (n mod 10)]"
      by (subst natToDec.simps) simp
    show ?thesis
    proof (cases "m < 10")
      case mt: True
      then have "natToDec m = [digitChar m]" by (subst natToDec.simps) simp
      with n "1.prems" natToDec_nonempty [of "n div 10"] show ?thesis by simp
    next
      case mf: False
      then have m: "natToDec m = natToDec (m div 10) @ [digitChar (m mod 10)]"
        by (subst natToDec.simps) simp
      from n m "1.prems" have a: "natToDec (n div 10) = natToDec (m div 10)"
        and b: "digitChar (n mod 10) = digitChar (m mod 10)" by simp_all
      from "1.IH" [OF False a] have "n div 10 = m div 10" .
      moreover from b have "n mod 10 = m mod 10" by (intro digitChar_inj) simp_all
      ultimately show ?thesis by (metis div_mult_mod_eq)
    qed
  qed
qed

lemma FormatInt_nat_inj: "FormatInt (int n) = FormatInt (int m) \<Longrightarrow> n = m"
  by (simp add: FormatInt_def natToDec_inj)


lemma sint_of_nat_small: "m < 2 ^ 63 \<Longrightarrow> sint (of_nat m :: 64 word) = int m"
proof -
  assume m: "m < 2 ^ 63"
  have "int m < 2 ^ 63" using m by (metis of_nat_less_iff of_nat_numeral of_nat_power)
  moreover have "- (2 ^ 63) \<le> int m" by simp
  ultimately have "signed_take_bit 63 (int m) = int m"
    by (intro signed_take_bit_int_eq_self) simp_all
  then show ?thesis by (simp add: signed_of_nat)
qed

text \<open>
  The invariant of a session whose counter stands at \<open>n\<close>: the tunnels it holds carry
  pairwise different identifiers, each the decimal form of a number from 1 to \<open>n\<close>.
\<close>

lemma StartTunnel_inv:
  assumes cnt: "tunnelIDAutoIncrement c = of_nat n" and n: "Suc n < 2 ^ 63"
    and dist: "distinct (map TunnelID (Tunnels c))"
    and old: "\<forall>t \<in> set (Tunnels c). \<exists>j. 0 < j \<and> j \<le> n \<and> TunnelID t = FormatInt (int j)"
    and st: "StartTunnel Equals startErr c r acl = (c1, res, drawn)"
  shows "(drawn = None \<and> c1 = c
          \<or> drawn = Some (of_nat (Suc n)) \<and> tunnelIDAutoIncrement c1 = of_nat (Suc n)
             \<and> set (Tunnels c1) \<subseteq> insert (NewTunnel (FormatInt (int (Suc n))) r acl) (set (Tunnels c)))
       \<and> distinct (map TunnelID (Tunnels c1))"
proof (cases "findTunnelByRemote Equals c r")
  case (Some t)
  with st dist show ?thesis by (simp add: StartTunnel_def)
next
  case None
  have s: "sint (of_nat (Suc n) :: 64 word) = int (Suc n)"
    by (rule sint_of_nat_small [OF n])
  have w: "(of_nat n + 1 :: 64 word) = of_nat (Suc n)" by simp
  have s': "sint (1 + of_nat n :: 64 word) = 1 + int n" "sint (of_nat n + 1 :: 64 word) = 1 + int n"
    "sint (1 + of_nat n :: 64 word) = int n + 1" "sint (of_nat n + 1 :: 64 word) = int n + 1"
    using s by (simp_all add: add.commute)
  have fresh: "FormatInt (int (Suc n)) \<notin> TunnelID ` set (Tunnels c)"
  proof
    assume "FormatInt (int (Suc n)) \<in> TunnelID ` set (Tunnels c)"
    then obtain t where "t \<in> set (Tunnels c)" "TunnelID t = FormatInt (int (Suc n))" by auto
    with old obtain j where "j \<le> n" "FormatInt (int j) = FormatInt (int (Suc n))" by metis
    then show False using FormatInt_nat_inj [of j "Suc n"] by simp
  qed
  show ?thesis
  proof (cases startErr)
    case (Some err)
    with None st dist show ?thesis
      by (auto simp: StartTunnel_def generateNewTunnelID_def cnt w Let_def)
  next
    case N: None
    with None st have c1: "c1 = c\<lparr>tunnelIDAutoIncrement := of_nat (Suc n),
          Tunnels := Tunnels c @ [NewTunnel (FormatInt (int (Suc n))) r acl]\<rparr>"
      and d: "drawn = Some (of_nat (Suc n))"
      by (auto simp: StartTunnel_def generateNewTunnelID_def cnt s' Let_def add.commute)
    have "distinct (map TunnelID (Tunnels c1))"
      using dist fresh by (simp add: c1 NewTunnel_def)
    then show ?thesis by (auto simp: c1 d)
  qed
qed

lemma runSession_inv:
  assumes "tunnelIDAutoIncrement c = of_nat n" and "n + length calls < 2 ^ 63"
    and "distinct (map TunnelID (Tunnels c))"
    and "\<forall>t \<in> set (Tunnels c). \<exists>j. 0 < j \<and> j \<le> n \<and> TunnelID t = FormatInt (int j)"
  shows "\<exists>k \<le> length calls.
           snd (runSession Equals c calls) = map of_nat [Suc n ..< Suc n + k]
         \<and> tunnelIDAutoIncrement (fst (runSession Equals c calls)) = of_nat (n + k)
         \<and> distinct (map TunnelID (Tunnels (fst (runSession Equals c calls))))
         \<and> (\<forall>t \<in> set (Tunnels (fst (runSession Equals c calls))).
               \<exists>j. 0 < j \<and> j \<le> n + k \<and> TunnelID t = FormatInt (int j))"
  using assms
proof (induction calls arbitrary: c n)
  case Nil
  then show ?case by simp
next
  case (Cons call calls)
  show ?case
  proof (cases call)
    case (CallTerminateTunnel t)
    let ?c1 = "TerminateTunnel c t"
    have "\<exists>k \<le> length calls.
           snd (runSession Equals ?c1 calls) = map of_nat [Suc n ..< Suc n + k]
         \<and> tunnelIDAutoIncrement (fst (runSession Equals ?c1 calls)) = of_nat (n + k)
         \<and> distinct (map TunnelID (Tunnels (fst (runSession Equals ?c1 calls))))
         \<and> (\<forall>t \<in> set (Tunnels (fst (runSession Equals ?c1 calls))).
               \<exists>j. 0 < j \<and> j \<le> n + k \<and> TunnelID t = FormatInt (int j))"
      using Cons.prems
      by (intro Cons.IH) (simp_all add: TerminateTunnel_def removeTunnel_def distinct_map_filter)
    then obtain k where "k \<le> length calls"
      "snd (runSession Equals ?c1 calls) = map of_nat [Suc n ..< Suc n + k]"
      "tunnelIDAutoIncrement (fst (runSession Equals ?c1 calls)) = of_nat (n + k)"
      "distinct (map TunnelID (Tunnels (fst (runSession Equals ?c1 calls))))"
      "\<forall>t \<in> set (Tunnels (fst (runSession Equals ?c1 calls))).
               \<exists>j. 0 < j \<and> j \<le> n + k \<and> TunnelID t = FormatInt (int j)"
      by blast
    then show ?thesis
      by (intro exI [of _ k]) (simp add: CallTerminateTunnel)
  next
    case (CallStartTunnel r acl startErr)
    obtain c1 res drawn where st: "StartTunnel Equals startErr c r acl = (c1, res, drawn)"
      by (cases "StartTunnel Equals startErr c r acl")
    have sn: "Suc n < 2 ^ 63" using Cons.prems(2) by simp
    note step = StartTunnel_inv [OF Cons.prems(1) sn Cons.prems(3,4) st]
    have run: "runSession Equals c (call # calls) =
        (fst (runSession Equals c1 calls),
         (case drawn of None \<Rightarrow> [] | Some n \<Rightarrow> [n]) @ snd (runSession Equals c1 calls))"
      by (simp add: CallStartTunnel st split_beta)
    from step show ?thesis
    proof (elim conjE disjE)
      assume d: "drawn = None" and c1: "c1 = c"
      have "\<exists>k \<le> length calls.
           snd (runSession Equals c calls) = map of_nat [Suc n ..< Suc n + k]
         \<and> tunnelIDAutoIncrement (fst (runSession Equals c calls)) = of_nat (n + k)
         \<and> distinct (map TunnelID (Tunnels (fst (runSession Equals c calls))))
         \<and> (\<forall>t \<in> set (Tunnels (fst (runSession Equals c calls))).
               \<exists>j. 0 < j \<and> j \<le> n + k \<and> TunnelID t = FormatInt (int j))"
        using Cons.prems by (intro Cons.IH) simp_all
      then obtain k where "k \<le> length calls"
        "snd (runSession Equals c calls) = map of_nat [Suc n ..< Suc n + k]"
        "tunnelIDAutoIncrement (fst (runSession Equals c calls)) = of_nat (n + k)"
        "distinct (map TunnelID (Tunnels (fst (runSession Equals c calls))))"
        "\<forall>t \<in> set (Tunnels (fst (runSession Equals c calls))).
               \<exists>j. 0 < j \<and> j \<le> n + k \<and> TunnelID t = FormatInt (int j)"
        by blast
      then show ?thesis
        by (intro exI [of _ k]) (simp add: run d c1)
    next
      assume d: "drawn = Some (of_nat (Suc n))"
        and cnt: "tunnelIDAutoIncrement c1 = of_nat (Suc n)"
        and sub: "set (Tunnels c1) \<subseteq> insert (NewTunnel (FormatInt (int (Suc n))) r acl) (set (Tunnels c))"
        and dist: "distinct (map TunnelID (Tunnels c1))"
      have old: "\<forall>t \<in> set (Tunnels c1). \<exists>j. 0 < j \<and> j \<le> Suc n \<and> TunnelID t = FormatInt (int j)"
      proof
        fix t assume "t \<in> set (Tunnels c1)"
        with sub have "t = NewTunnel (FormatInt (int (Suc n))) r acl \<or> t \<in> set (Tunnels c)" by auto
        then show "\<exists>j. 0 < j \<and> j \<le> Suc n \<and> TunnelID t = FormatInt (int j)"
        proof
          assume "t = NewTunnel (FormatInt (int (Suc n))) r acl"
          then show ?thesis by (intro exI [of _ "Suc n"]) (simp add: NewTunnel_def)
        next
          assume "t \<in> set (Tunnels c)"
          with Cons.prems(4) obtain j where "0 < j" "j \<le> n" "TunnelID t = FormatInt (int j)"
            by blast
          then show ?thesis by (intro exI [of _ j]) simp
        qed
      qed
      have "\<exists>k \<le> length calls.
           snd (runSession Equals c1 calls) = map of_nat [Suc (Suc n) ..< Suc (Suc n) + k]
         \<and> tunnelIDAutoIncrement (fst (runSession Equals c1 calls)) = of_nat (Suc n + k)
         \<and> distinct (map TunnelID (Tunnels (fst (runSession Equals c1 calls))))
         \<and> (\<forall>t \<in> set (Tunnels (fst (runSession Equals c1 calls))).
               \<exists>j. 0 < j \<and> j \<le> Suc n + k \<and> TunnelID t = FormatInt (int j))"
        using Cons.prems(2) by (intro Cons.IH [OF cnt _ dist old]) simp
      then obtain k where k: "k \<le> length calls"
        "snd (runSession Equals c1 calls) = map of_nat [Suc (Suc n) ..< Suc (Suc n) + k]"
        "tunnelIDAutoIncrement (fst (runSession Equals c1 calls)) = of_nat (Suc n + k)"
        "distinct (map TunnelID (Tunnels (fst (runSession Equals c1 calls))))"
        "\<forall>t \<in> set (Tunnels (fst (runSession Equals c1 calls))).
               \<exists>j. 0 < j \<and> j \<le> Suc n + k \<and> TunnelID t = FormatInt (int j)"
        by blast
      have ids: "snd (runSession Equals c (call # calls)) = map of_nat [Suc n ..< Suc n + Suc k]"
        by (simp add: run d k(2) upt_rec [of "Suc n" "Suc (Suc (n + k))"] del: upt_Suc)
      show ?thesis
        using k ids by (intro exI [of _ "Suc k"]) (simp add: run)
    qed
  qed
qed


text \<open>
  Claim C9. A session starts with no tunnel and its counter at 0. Over any sequence of
  fewer than \<open>2\<^sup>6\<^sup>3\<close> calls of \<^verbatim>\<open>StartTunnel\<close> and \<^verbatim>\<open>TerminateTunnel\<close> (so
  that the \<^verbatim>\<open>int64\<close> counter cannot wrap), the identifiers drawn from the counter are
  strictly increasing as numbers in the order they are drawn, their decimal strings are
  pairwise different, so that none is handed out twice, also after its tunnel has been
  removed, and at the end the tunnels of the session carry pairwise different identifiers,
  each one of those drawn.
\<close>

theorem tunnel_ids_increasing:
  assumes "Tunnels c = []" and "tunnelIDAutoIncrement c = 0" and "length calls < 2 ^ 63"
  shows "sorted_wrt (<) (map sint (snd (runSession Equals c calls)))
       \<and> distinct (map (\<lambda>n. FormatInt (sint n)) (snd (runSession Equals c calls)))
       \<and> distinct (map TunnelID (Tunnels (fst (runSession Equals c calls))))
       \<and> (\<forall>t \<in> set (Tunnels (fst (runSession Equals c calls))).
             TunnelID t \<in> (\<lambda>n. FormatInt (sint n)) ` set (snd (runSession Equals c calls)))"
proof -
  from runSession_inv [of c 0 calls Equals] assms
  obtain k where k: "k \<le> length calls"
    and ids: "snd (runSession Equals c calls) = map of_nat [Suc 0 ..< Suc 0 + k]"
    and dist: "distinct (map TunnelID (Tunnels (fst (runSession Equals c calls))))"
    and tun: "\<forall>t \<in> set (Tunnels (fst (runSession Equals c calls))).
               \<exists>j. 0 < j \<and> j \<le> 0 + k \<and> TunnelID t = FormatInt (int j)"
    by auto
  have small: "j < 2 ^ 63" if "j \<le> k" for j
    using that k assms(3) by simp
  have sint_ids: "map sint (map of_nat [Suc 0 ..< Suc 0 + k] :: 64 word list) = map int [Suc 0 ..< Suc 0 + k]"
    using small by (auto simp: sint_of_nat_small)
  have fmt_ids: "map (\<lambda>n. FormatInt (sint n)) (map of_nat [Suc 0 ..< Suc 0 + k] :: 64 word list)
      = map (\<lambda>j. FormatInt (int j)) [Suc 0 ..< Suc 0 + k]"
    using small by (auto simp: sint_of_nat_small)
  have a: "sorted_wrt (<) (map sint (snd (runSession Equals c calls)))"
    unfolding ids sint_ids by (simp add: sorted_wrt_map sorted_wrt_upt del: upt_Suc)
  have "inj (\<lambda>j. FormatInt (int j))"
    by (rule injI) (rule FormatInt_nat_inj)
  then have b: "distinct (map (\<lambda>n. FormatInt (sint n)) (snd (runSession Equals c calls)))"
    unfolding ids fmt_ids by (simp add: distinct_map inj_on_def del: upt_Suc)
  have d: "\<forall>t \<in> set (Tunnels (fst (runSession Equals c calls))).
             TunnelID t \<in> (\<lambda>n. FormatInt (sint n)) ` set (snd (runSession Equals c calls))"
  proof
    fix t assume "t \<in> set (Tunnels (fst (runSession Equals c calls)))"
    with tun obtain j where j: "0 < j" "j \<le> k" "TunnelID t = FormatInt (int j)" by auto
    have img: "(\<lambda>n. FormatInt (sint n)) ` set (snd (runSession Equals c calls))
        = (\<lambda>j. FormatInt (int j)) ` {Suc 0 ..< Suc 0 + k}"
      using arg_cong [OF fmt_ids, of set] by (simp add: ids image_image del: upt_Suc)
    have "j \<in> {Suc 0 ..< Suc 0 + k}" using j by auto
    then show "TunnelID t \<in> (\<lambda>n. FormatInt (sint n)) ` set (snd (runSession Equals c calls))"
      unfolding img j(3) by (rule imageI)
  qed
  from a b dist d show ?thesis by (intro conjI)
qed


text \<open>
  The theorem at: start a tunnel (it gets 1), terminate it, start a tunnel to the same
  remote again (it gets 2, not 1).
\<close>

theorem tunnel_ids_increasing_witness:
  "snd (runSession (\<lambda>t r. TunnelRemote t = r)
        \<lparr>Tunnels = [], tunnelIDAutoIncrement = 0\<rparr>
        [CallStartTunnel ''0.0.0.0:2222:127.0.0.1:22'' () None,
         CallTerminateTunnel \<lparr>TunnelID = ''1'', TunnelRemote = ''0.0.0.0:2222:127.0.0.1:22'', TunnelACL = ()\<rparr>,
         CallStartTunnel ''0.0.0.0:2222:127.0.0.1:22'' () None]) = [1, 2]
   \<and> map TunnelID (Tunnels (fst (runSession (\<lambda>t r. TunnelRemote t = r)
        \<lparr>Tunnels = [], tunnelIDAutoIncrement = 0\<rparr>
        [CallStartTunnel ''0.0.0.0:2222:127.0.0.1:22'' () None,
         CallTerminateTunnel \<lparr>TunnelID = ''1'', TunnelRemote = ''0.0.0.0:2222:127.0.0.1:22'', TunnelACL = ()\<rparr>,
         CallStartTunnel ''0.0.0.0:2222:127.0.0.1:22'' () None]))) = [''2'']"
proof -
  let ?c = "\<lparr>Tunnels = [], tunnelIDAutoIncrement = 0\<rparr> :: (string, unit) ClientSession"
  let ?calls = "[CallStartTunnel ''0.0.0.0:2222:127.0.0.1:22'' () None,
         CallTerminateTunnel \<lparr>TunnelID = ''1'', TunnelRemote = ''0.0.0.0:2222:127.0.0.1:22'', TunnelACL = ()\<rparr>,
         CallStartTunnel ''0.0.0.0:2222:127.0.0.1:22'' () None]"
  have h1: "Tunnels ?c = []" and h2: "tunnelIDAutoIncrement ?c = 0" by simp_all
  have h3: "length ?calls < 2 ^ 63" by simp
  have run: "runSession (\<lambda>t r. TunnelRemote t = r) ?c ?calls
      = (\<lparr>Tunnels = [\<lparr>TunnelID = ''2'', TunnelRemote = ''0.0.0.0:2222:127.0.0.1:22'', TunnelACL = ()\<rparr>],
          tunnelIDAutoIncrement = 2\<rparr>, [1, 2])"
    by (simp add: StartTunnel_def findTunnelByRemote_def generateNewTunnelID_def NewTunnel_def
        TerminateTunnel_def removeTunnel_def FormatInt_def natToDec.simps digitChar_def Let_def)
  show ?thesis
    using tunnel_ids_increasing [OF h1 h2 h3, of "\<lambda>t r. TunnelRemote t = r"]
    unfolding run by simp
qed

end
